theory Spec2Isabelle
  imports Complex_Main "HOL-Library.Word"
begin

unbundle bit_operations_syntax

section \<open>JavaScript strings\<close>

text \<open>
  A JavaScript string is a sequence of 16-bit code units; \<open>length\<close> and
  \<open>charCodeAt\<close> count code units.  \<open>js\<close> embeds an ASCII literal.
\<close>

type_synonym code_unit = "16 word"
type_synonym jsstring = "code_unit list"
type_synonym byte = "8 word"

definition js :: "string \<Rightarrow> jsstring" where
  "js s = map (\<lambda>c. of_nat (of_char c)) s"

text \<open>
  Exceptions are values: a function that can throw returns \<open>exn + 'a\<close>, with
  \<open>Inl\<close> the exception.  \<open>Error\<close> carries the message of \<^verbatim>\<open>new Error(...)\<close>.
\<close>

datatype exn = Error string | TypeError | URIError | SyntaxError | InvalidCharacterError

text \<open>Truthiness of a value that is a string or \<^verbatim>\<open>undefined\<close>: \<^verbatim>\<open>!x\<close> holds for
  \<^verbatim>\<open>undefined\<close> and for the empty string.\<close>

definition truthy :: "jsstring option \<Rightarrow> bool" where
  "truthy x = (case x of None \<Rightarrow> False | Some s \<Rightarrow> s \<noteq> [])"

text \<open>\<^verbatim>\<open>s.split(sep)\<close> for a separator of one code unit: every occurrence separates, and
  the result always has at least one element (\<^verbatim>\<open>"".split(",")\<close> is \<^verbatim>\<open>[""]\<close>).\<close>

fun split :: "code_unit \<Rightarrow> jsstring \<Rightarrow> jsstring list" where
  "split sep [] = [[]]"
| "split sep (c # cs) =
     (if c = sep then [] # split sep cs
      else (case split sep cs of [] \<Rightarrow> [[c]] | seg # segs \<Rightarrow> (c # seg) # segs))"

text \<open>\<^verbatim>\<open>s.trim()\<close> removes leading and trailing white space and line terminators
  (ECMAScript WhiteSpace and LineTerminator).\<close>

definition isWhiteSpace :: "code_unit \<Rightarrow> bool" where
  "isWhiteSpace c \<longleftrightarrow>
     c \<in> {0x0009, 0x000A, 0x000B, 0x000C, 0x000D, 0x0020, 0x00A0, 0x1680,
          0x2028, 0x2029, 0x202F, 0x205F, 0x3000, 0xFEFF}
     \<or> (0x2000 \<le> c \<and> c \<le> 0x200A)"

definition trim :: "jsstring \<Rightarrow> jsstring" where
  "trim s = rev (dropWhile isWhiteSpace (rev (dropWhile isWhiteSpace s)))"

section \<open>UTF-16 code points and UTF-8\<close>

definition is_high_surrogate :: "code_unit \<Rightarrow> bool" where
  "is_high_surrogate c \<longleftrightarrow> 0xD800 \<le> c \<and> c \<le> 0xDBFF"

definition is_low_surrogate :: "code_unit \<Rightarrow> bool" where
  "is_low_surrogate c \<longleftrightarrow> 0xDC00 \<le> c \<and> c \<le> 0xDFFF"

definition is_surrogate :: "nat \<Rightarrow> bool" where
  "is_surrogate cp \<longleftrightarrow> 0xD800 \<le> cp \<and> cp \<le> 0xDFFF"

text \<open>The code points of a string: a high surrogate followed by a low surrogate is one
  supplementary code point; any other code unit, a lone surrogate included, is the code
  point of its own value.\<close>

fun code_points :: "jsstring \<Rightarrow> nat list" where
  "code_points [] = []"
| "code_points [c] = [unat c]"
| "code_points (c # d # cs) =
     (if is_high_surrogate c \<and> is_low_surrogate d
      then (0x10000 + (unat c - 0xD800) * 0x400 + (unat d - 0xDC00)) # code_points cs
      else unat c # code_points (d # cs))"

definition utf8_bytes :: "nat \<Rightarrow> nat list" where
  "utf8_bytes cp =
     (if cp < 0x80 then [cp]
      else if cp < 0x800 then [0xC0 + cp div 0x40, 0x80 + cp mod 0x40]
      else if cp < 0x10000 then
        [0xE0 + cp div 0x1000, 0x80 + cp div 0x40 mod 0x40, 0x80 + cp mod 0x40]
      else
        [0xF0 + cp div 0x40000, 0x80 + cp div 0x1000 mod 0x40,
         0x80 + cp div 0x40 mod 0x40, 0x80 + cp mod 0x40])"

text \<open>\<^verbatim>\<open>new TextEncoder().encode(s)\<close>: UTF-8, a lone surrogate encoded as U+FFFD.\<close>

definition TextEncoder_encode :: "jsstring \<Rightarrow> byte list" where
  "TextEncoder_encode s =
     map of_nat
       (concat (map (\<lambda>cp. utf8_bytes (if is_surrogate cp then 0xFFFD else cp)) (code_points s)))"

section \<open>HMAC-SHA-256\<close>

text \<open>
  \<^verbatim>\<open>crypto.subtle.sign("HMAC", key, data)\<close> with a key imported for SHA-256: the
  functions of FIPS 180-4 (SHA-256) and FIPS 198-1 (HMAC) on byte sequences.
\<close>

definition rotr :: "nat \<Rightarrow> 32 word \<Rightarrow> 32 word" where
  "rotr n x = drop_bit n x OR push_bit (32 - n) x"

definition Ch :: "32 word \<Rightarrow> 32 word \<Rightarrow> 32 word \<Rightarrow> 32 word" where
  "Ch x y z = (x AND y) XOR (NOT x AND z)"

definition Maj :: "32 word \<Rightarrow> 32 word \<Rightarrow> 32 word \<Rightarrow> 32 word" where
  "Maj x y z = (x AND y) XOR (x AND z) XOR (y AND z)"

definition Sigma0 :: "32 word \<Rightarrow> 32 word" where
  "Sigma0 x = rotr 2 x XOR rotr 13 x XOR rotr 22 x"

definition Sigma1 :: "32 word \<Rightarrow> 32 word" where
  "Sigma1 x = rotr 6 x XOR rotr 11 x XOR rotr 25 x"

definition sigma0 :: "32 word \<Rightarrow> 32 word" where
  "sigma0 x = rotr 7 x XOR rotr 18 x XOR drop_bit 3 x"

definition sigma1 :: "32 word \<Rightarrow> 32 word" where
  "sigma1 x = rotr 17 x XOR rotr 19 x XOR drop_bit 10 x"

definition K256 :: "32 word list" where
  "K256 =
   [0x428A2F98, 0x71374491, 0xB5C0FBCF, 0xE9B5DBA5, 0x3956C25B, 0x59F111F1, 0x923F82A4, 0xAB1C5ED5,
    0xD807AA98, 0x12835B01, 0x243185BE, 0x550C7DC3, 0x72BE5D74, 0x80DEB1FE, 0x9BDC06A7, 0xC19BF174,
    0xE49B69C1, 0xEFBE4786, 0x0FC19DC6, 0x240CA1CC, 0x2DE92C6F, 0x4A7484AA, 0x5CB0A9DC, 0x76F988DA,
    0x983E5152, 0xA831C66D, 0xB00327C8, 0xBF597FC7, 0xC6E00BF3, 0xD5A79147, 0x06CA6351, 0x14292967,
    0x27B70A85, 0x2E1B2138, 0x4D2C6DFC, 0x53380D13, 0x650A7354, 0x766A0ABB, 0x81C2C92E, 0x92722C85,
    0xA2BFE8A1, 0xA81A664B, 0xC24B8B70, 0xC76C51A3, 0xD192E819, 0xD6990624, 0xF40E3585, 0x106AA070,
    0x19A4C116, 0x1E376C08, 0x2748774C, 0x34B0BCB5, 0x391C0CB3, 0x4ED8AA4A, 0x5B9CCA4F, 0x682E6FF3,
    0x748F82EE, 0x78A5636F, 0x84C87814, 0x8CC70208, 0x90BEFFFA, 0xA4506CEB, 0xBEF9A3F7, 0xC67178F2]"

type_synonym sha_state =
  "32 word \<times> 32 word \<times> 32 word \<times> 32 word \<times> 32 word \<times> 32 word \<times> 32 word \<times> 32 word"

definition H256_init :: sha_state where
  "H256_init =
   (0x6A09E667, 0xBB67AE85, 0x3C6EF372, 0xA54FF53A, 0x510E527F, 0x9B05688C, 0x1F83D9AB, 0x5BE0CD19)"

text \<open>Padding: a 1 bit, zeros, and the bit length as a 64-bit big-endian integer.\<close>

definition word64_bytes :: "64 word \<Rightarrow> byte list" where
  "word64_bytes w =
     [ucast (drop_bit 56 w), ucast (drop_bit 48 w), ucast (drop_bit 40 w), ucast (drop_bit 32 w),
      ucast (drop_bit 24 w), ucast (drop_bit 16 w), ucast (drop_bit 8 w), ucast w]"

definition sha256_pad :: "byte list \<Rightarrow> byte list" where
  "sha256_pad m =
     m @ [0x80] @ replicate ((119 - length m mod 64) mod 64) 0 @ word64_bytes (of_nat (8 * length m))"

fun be_word32 :: "byte list \<Rightarrow> 32 word" where
  "be_word32 bs = fold (\<lambda>b acc. push_bit 8 acc OR ucast b) bs 0"

fun words_of_block :: "byte list \<Rightarrow> 32 word list" where
  "words_of_block (a # b # c # d # rest) = be_word32 [a, b, c, d] # words_of_block rest"
| "words_of_block _ = []"

text \<open>The message schedule of a block of 16 words: a window of the last 16 words; each
  step emits the oldest word and appends the next one.\<close>

fun schedule :: "nat \<Rightarrow> 32 word list \<Rightarrow> 32 word list" where
  "schedule 0 w = []"
| "schedule (Suc n) w =
     hd w # schedule n (tl w @ [sigma1 (w ! 14) + w ! 9 + sigma0 (w ! 1) + w ! 0])"

fun sha256_round :: "sha_state \<Rightarrow> 32 word \<times> 32 word \<Rightarrow> sha_state" where
  "sha256_round (a, b, c, d, e, f, g, h) (k, w) =
     (let t1 = h + Sigma1 e + Ch e f g + k + w;
          t2 = Sigma0 a + Maj a b c
      in (t1 + t2, a, b, c, d + t1, e, f, g))"

fun sha256_compress :: "sha_state \<Rightarrow> byte list \<Rightarrow> sha_state" where
  "sha256_compress (a, b, c, d, e, f, g, h) block =
     (case foldl sha256_round (a, b, c, d, e, f, g, h)
             (zip K256 (schedule 64 (words_of_block block))) of
        (a', b', c', d', e', f', g', h') \<Rightarrow>
          (a + a', b + b', c + c', d + d', e + e', f + f', g + g', h + h'))"

fun sha256_blocks :: "nat \<Rightarrow> sha_state \<Rightarrow> byte list \<Rightarrow> sha_state" where
  "sha256_blocks 0 st bs = st"
| "sha256_blocks (Suc n) st bs = sha256_blocks n (sha256_compress st (take 64 bs)) (drop 64 bs)"

definition word32_bytes :: "32 word \<Rightarrow> byte list" where
  "word32_bytes w = [ucast (drop_bit 24 w), ucast (drop_bit 16 w), ucast (drop_bit 8 w), ucast w]"

definition sha256 :: "byte list \<Rightarrow> byte list" where
  "sha256 m =
     (let p = sha256_pad m in
      case sha256_blocks (length p div 64) H256_init p of
        (a, b, c, d, e, f, g, h) \<Rightarrow> concat (map word32_bytes [a, b, c, d, e, f, g, h]))"

definition hmac_sha256 :: "byte list \<Rightarrow> byte list \<Rightarrow> byte list" where
  "hmac_sha256 key m =
     (let k0 = (if length key > 64 then sha256 key else key);
          k = k0 @ replicate (64 - length k0) 0
      in sha256 (map (\<lambda>b. b XOR 0x5c) k @ sha256 (map (\<lambda>b. b XOR 0x36) k @ m)))"

text \<open>\<^verbatim>\<open>[...new Uint8Array(sig)].map((b) => b.toString(16).padStart(2, "0")).join("")\<close>\<close>

definition hex_digit :: "nat \<Rightarrow> code_unit" where
  "hex_digit n = (if n < 10 then of_nat (0x30 + n) else of_nat (0x61 + (n - 10)))"

definition toString16 :: "byte \<Rightarrow> jsstring" where
  "toString16 b =
     (if unat b < 16 then [hex_digit (unat b)]
      else [hex_digit (unat b div 16), hex_digit (unat b mod 16)])"

definition padStart2 :: "jsstring \<Rightarrow> jsstring" where
  "padStart2 s = replicate (2 - length s) 0x30 @ s"

definition hex_of_bytes :: "byte list \<Rightarrow> jsstring" where
  "hex_of_bytes bs = concat (map (\<lambda>b. padStart2 (toString16 b)) bs)"

text \<open>\<^verbatim>\<open>hmacHex(secret, message)\<close>.  Its callers pass a secret they have checked to be
  non-empty.\<close>

definition hmacHex :: "jsstring \<Rightarrow> jsstring \<Rightarrow> jsstring" where
  "hmacHex secret message =
     hex_of_bytes (hmac_sha256 (TextEncoder_encode secret) (TextEncoder_encode message))"

section \<open>Constant-time comparison\<close>

text \<open>
  \<^verbatim>\<open>a.charCodeAt(i)\<close> as an operand of \<^verbatim>\<open>^\<close>: the code unit, converted to a 32-bit
  integer; out of range \<^verbatim>\<open>charCodeAt\<close> is NaN, which the bitwise operator reads as 0.
\<close>

definition charCodeAt :: "jsstring \<Rightarrow> nat \<Rightarrow> 32 word" where
  "charCodeAt s i = (if i < length s then ucast (s ! i) else 0)"

text \<open>
  \<^verbatim>\<open>for (let i = 0; i < a.length; i++) out |= a.charCodeAt(i) ^ b.charCodeAt(i);\<close>
  The loop returns the final index together with the accumulator, so that the number of
  iterations it ran is part of its result.
\<close>

function xor_loop :: "jsstring \<Rightarrow> jsstring \<Rightarrow> nat \<Rightarrow> 32 word \<Rightarrow> nat \<times> 32 word" where
  "xor_loop a b i out =
     (if i < length a
      then xor_loop a b (Suc i) (out OR (charCodeAt a i XOR charCodeAt b i))
      else (i, out))"
  by pat_completeness auto
termination
  by (relation "measure (\<lambda>(a, b, i, out). length a - i)") auto

declare xor_loop.simps [simp del]

definition timingSafeEqualHex :: "jsstring \<Rightarrow> jsstring \<Rightarrow> bool" where
  "timingSafeEqualHex a b =
     (if length a \<noteq> length b then False
      else snd (xor_loop a b 0 0) = 0)"

section \<open>Stripe webhook signature\<close>

record Env =
  STRIPE_WEBHOOK_SECRET :: "jsstring option"
  REVIEW_LINK_SECRET :: "jsstring option"

text \<open>
  \<^verbatim>\<open>const parts: Record<string, string> = {}\<close>: a map from keys to values.
  \<^verbatim>\<open>parts[k] = v\<close> stores the value, except for the key \<^verbatim>\<open>__proto__\<close>, whose setter
  ignores a string.
\<close>

type_synonym parts = "jsstring \<rightharpoonup> jsstring"

definition assign :: "parts \<Rightarrow> jsstring \<Rightarrow> jsstring \<Rightarrow> parts" where
  "assign parts k v = (if k = js ''__proto__'' then parts else parts(k \<mapsto> v))"

text \<open>
  The body of the loop over the segments:
  \<^verbatim>\<open>const [k, v] = seg.split("=").map((s) => s.trim()); if (k && v) parts[k] = v;\<close>
\<close>

definition header_segment :: "parts \<Rightarrow> jsstring \<Rightarrow> parts" where
  "header_segment parts seg =
     (case map trim (split 0x3D seg) of
        k # v # _ \<Rightarrow> if truthy (Some k) \<and> truthy (Some v) then assign parts k v else parts
      | _ \<Rightarrow> parts)"

definition header_parts :: "jsstring \<Rightarrow> parts" where
  "header_parts stripeSignature = foldl header_segment Map.empty (split 0x2C stripeSignature)"

definition verifyStripeWebhookRaw :: "Env \<Rightarrow> jsstring \<Rightarrow> jsstring \<Rightarrow> exn + bool" where
  "verifyStripeWebhookRaw env stripeSignature rawText =
     (if \<not> truthy (STRIPE_WEBHOOK_SECRET env) then Inl (Error ''Missing STRIPE_WEBHOOK_SECRET'')
      else
        let parts = header_parts stripeSignature;
            t = parts (js ''t'');
            v1 = parts (js ''v1'')
        in if \<not> truthy t \<or> \<not> truthy v1 then Inr False
           else
             let signedPayload = the t @ js ''.'' @ rawText;
                 sigBuf = hmac_sha256 (TextEncoder_encode (the (STRIPE_WEBHOOK_SECRET env)))
                            (TextEncoder_encode signedPayload);
                 sigHex = hex_of_bytes sigBuf
             in if length sigHex \<noteq> length (the v1) then Inr False
                else Inr (snd (xor_loop sigHex (the v1) 0 0) = 0))"

section \<open>Percent-encoding and base64\<close>

definition HEX_DIGIT :: "nat \<Rightarrow> code_unit" where
  "HEX_DIGIT n = (if n < 10 then of_nat (0x30 + n) else of_nat (0x41 + (n - 10)))"

definition hex_value :: "code_unit \<Rightarrow> nat option" where
  "hex_value c =
     (if 0x30 \<le> c \<and> c \<le> 0x39 then Some (unat c - 0x30)
      else if 0x41 \<le> c \<and> c \<le> 0x46 then Some (unat c - 0x41 + 10)
      else if 0x61 \<le> c \<and> c \<le> 0x66 then Some (unat c - 0x61 + 10)
      else None)"

text \<open>The value of a non-empty sequence of hexadecimal digits.\<close>

fun parse_hex_acc :: "nat \<Rightarrow> jsstring \<Rightarrow> nat option" where
  "parse_hex_acc acc [] = Some acc"
| "parse_hex_acc acc (c # cs) =
     (case hex_value c of None \<Rightarrow> None | Some d \<Rightarrow> parse_hex_acc (16 * acc + d) cs)"

definition parse_hex :: "jsstring \<Rightarrow> nat option" where
  "parse_hex s = (if s = [] then None else parse_hex_acc 0 s)"

definition is_alnum :: "code_unit \<Rightarrow> bool" where
  "is_alnum c \<longleftrightarrow>
     (0x41 \<le> c \<and> c \<le> 0x5A) \<or> (0x61 \<le> c \<and> c \<le> 0x7A) \<or> (0x30 \<le> c \<and> c \<le> 0x39)"

text \<open>\<^verbatim>\<open>encodeURIComponent\<close>: the characters left alone are the letters, the digits and
  \<^verbatim>\<open>- _ . ! ~ * ' ( )\<close>; every other code point is the percent-encoding of its UTF-8
  bytes; an unpaired surrogate throws.\<close>

definition uriUnreserved :: "code_unit \<Rightarrow> bool" where
  "uriUnreserved c \<longleftrightarrow>
     is_alnum c \<or> c \<in> {0x2D, 0x5F, 0x2E, 0x21, 0x7E, 0x2A, 0x27, 0x28, 0x29}"

definition percent :: "nat \<Rightarrow> jsstring" where
  "percent b = [0x25, HEX_DIGIT (b div 16), HEX_DIGIT (b mod 16)]"

definition encode_code_point :: "nat \<Rightarrow> jsstring" where
  "encode_code_point cp =
     (if cp < 0x80 \<and> uriUnreserved (of_nat cp) then [of_nat cp]
      else concat (map percent (utf8_bytes cp)))"

definition encodeURIComponent :: "jsstring \<Rightarrow> exn + jsstring" where
  "encodeURIComponent s =
     (if \<exists>cp \<in> set (code_points s). is_surrogate cp then Inl URIError
      else Inr (concat (map encode_code_point (code_points s))))"

text \<open>\<^verbatim>\<open>unescape\<close>: \<^verbatim>\<open>%uXXXX\<close> and \<^verbatim>\<open>%XX\<close> become the code unit of that value; a
  \<^verbatim>\<open>%\<close> that starts neither stays.\<close>

fun unescape :: "jsstring \<Rightarrow> jsstring" where
  "unescape [] = []"
| "unescape (c # cs) =
     (if c = 0x25 then
        (if 5 \<le> length cs \<and> hd cs = 0x75 then
           (case parse_hex (take 4 (tl cs)) of
              Some n \<Rightarrow> of_nat n # unescape (drop 5 cs)
            | None \<Rightarrow> c # unescape cs)
         else if 2 \<le> length cs then
           (case parse_hex (take 2 cs) of
              Some n \<Rightarrow> of_nat n # unescape (drop 2 cs)
            | None \<Rightarrow> c # unescape cs)
         else c # unescape cs)
      else c # unescape cs)"


text \<open>\<^verbatim>\<open>btoa\<close>: base64 of a string of code units below 256; any other string throws.\<close>

definition b64char :: "nat \<Rightarrow> code_unit" where
  "b64char n =
     (if n < 26 then of_nat (0x41 + n)
      else if n < 52 then of_nat (0x61 + (n - 26))
      else if n < 62 then of_nat (0x30 + (n - 52))
      else if n = 62 then 0x2B
      else 0x2F)"

definition b64index :: "code_unit \<Rightarrow> nat option" where
  "b64index c =
     (if 0x41 \<le> c \<and> c \<le> 0x5A then Some (unat c - 0x41)
      else if 0x61 \<le> c \<and> c \<le> 0x7A then Some (unat c - 0x61 + 26)
      else if 0x30 \<le> c \<and> c \<le> 0x39 then Some (unat c - 0x30 + 52)
      else if c = 0x2B then Some 62
      else if c = 0x2F then Some 63
      else None)"

fun base64_encode :: "nat list \<Rightarrow> jsstring" where
  "base64_encode [] = []"
| "base64_encode [a] = [b64char (a div 4), b64char (a mod 4 * 16), 0x3D, 0x3D]"
| "base64_encode [a, b] =
     [b64char (a div 4), b64char (a mod 4 * 16 + b div 16), b64char (b mod 16 * 4), 0x3D]"
| "base64_encode (a # b # c # bs) =
     [b64char (a div 4), b64char (a mod 4 * 16 + b div 16),
      b64char (b mod 16 * 4 + c div 64), b64char (c mod 64)] @ base64_encode bs"

definition btoa :: "jsstring \<Rightarrow> exn + jsstring" where
  "btoa data =
     (if \<exists>c \<in> set data. 0xFF < c then Inl InvalidCharacterError
      else Inr (base64_encode (map unat data)))"

text \<open>\<^verbatim>\<open>atob\<close>: the forgiving base64 decoding.  ASCII white space is removed; when the
  length is then a multiple of 4, one or two final \<^verbatim>\<open>=\<close> are removed; a length of 1 modulo
  4 or a character outside the alphabet throws; a final group of 2 or 3 characters gives 1 or
  2 bytes, its spare low bits dropped.\<close>

definition is_ascii_whitespace :: "code_unit \<Rightarrow> bool" where
  "is_ascii_whitespace c \<longleftrightarrow> c \<in> {0x09, 0x0A, 0x0C, 0x0D, 0x20}"

fun base64_decode :: "nat list \<Rightarrow> nat list" where
  "base64_decode (w # x # y # z # rest) =
     [w * 4 + x div 16, x mod 16 * 16 + y div 4, y mod 4 * 64 + z] @ base64_decode rest"
| "base64_decode [w, x, y] = [w * 4 + x div 16, x mod 16 * 16 + y div 4]"
| "base64_decode [w, x] = [w * 4 + x div 16]"
| "base64_decode _ = []"

definition strip_padding :: "jsstring \<Rightarrow> jsstring" where
  "strip_padding d =
     (if length d mod 4 = 0 \<and> d \<noteq> [] \<and> last d = 0x3D then
        (if 2 \<le> length d \<and> last (butlast d) = 0x3D then butlast (butlast d) else butlast d)
      else d)"

definition atob :: "jsstring \<Rightarrow> exn + jsstring" where
  "atob data =
     (let d = strip_padding (filter (\<lambda>c. \<not> is_ascii_whitespace c) data)
      in if length d mod 4 = 1 then Inl InvalidCharacterError
         else if \<exists>c \<in> set d. b64index c = None then Inl InvalidCharacterError
         else Inr (map of_nat (base64_decode (map (\<lambda>c. the (b64index c)) d))))"

text \<open>\<^verbatim>\<open>escape\<close>: letters, digits and \<^verbatim>\<open>@ * _ + - . /\<close> stay; a code unit below 256
  becomes \<^verbatim>\<open>%XX\<close>, any other \<^verbatim>\<open>%uXXXX\<close>.\<close>

definition escape_unit :: "code_unit \<Rightarrow> jsstring" where
  "escape_unit c =
     (if is_alnum c \<or> c \<in> {0x40, 0x2A, 0x5F, 0x2B, 0x2D, 0x2E, 0x2F} then [c]
      else if c < 0x100 then percent (unat c)
      else [0x25, 0x75, HEX_DIGIT (unat c div 4096), HEX_DIGIT (unat c div 256 mod 16),
            HEX_DIGIT (unat c div 16 mod 16), HEX_DIGIT (unat c mod 16)])"

definition escape :: "jsstring \<Rightarrow> jsstring" where
  "escape s = concat (map escape_unit s)"

text \<open>\<^verbatim>\<open>decodeURIComponent\<close>: a \<^verbatim>\<open>%XX\<close> below 0x80 is that character; a lead byte is
  followed by its continuation bytes, each written \<^verbatim>\<open>%XX\<close>, and the bytes must be the
  UTF-8 encoding of a code point, which is appended in UTF-16; anything else throws.\<close>

fun hex_octet :: "jsstring \<Rightarrow> nat option" where
  "hex_octet (a # b # _) =
     (case (hex_value a, hex_value b) of (Some x, Some y) \<Rightarrow> Some (16 * x + y) | _ \<Rightarrow> None)"
| "hex_octet _ = None"

fun continuation_octets :: "nat \<Rightarrow> jsstring \<Rightarrow> (nat list \<times> jsstring) option" where
  "continuation_octets 0 s = Some ([], s)"
| "continuation_octets (Suc n) [] = None"
| "continuation_octets (Suc n) (c # cs) =
     (if c = 0x25 then
        (case hex_octet cs of
           None \<Rightarrow> None
         | Some b \<Rightarrow>
             (case continuation_octets n (drop 2 cs) of
                None \<Rightarrow> None
              | Some (bs, rest) \<Rightarrow> Some (b # bs, rest)))
      else None)"

definition is_continuation :: "nat \<Rightarrow> bool" where
  "is_continuation b \<longleftrightarrow> 0x80 \<le> b \<and> b < 0xC0"

fun utf8_decode :: "nat list \<Rightarrow> nat option" where
  "utf8_decode [b0, b1] =
     (let cp = (b0 - 0xC0) * 0x40 + (b1 - 0x80)
      in if is_continuation b1 \<and> 0x80 \<le> cp then Some cp else None)"
| "utf8_decode [b0, b1, b2] =
     (let cp = (b0 - 0xE0) * 0x1000 + (b1 - 0x80) * 0x40 + (b2 - 0x80)
      in if is_continuation b1 \<and> is_continuation b2 \<and> 0x800 \<le> cp \<and> \<not> is_surrogate cp
         then Some cp else None)"
| "utf8_decode [b0, b1, b2, b3] =
     (let cp = (b0 - 0xF0) * 0x40000 + (b1 - 0x80) * 0x1000 + (b2 - 0x80) * 0x40 + (b3 - 0x80)
      in if is_continuation b1 \<and> is_continuation b2 \<and> is_continuation b3
            \<and> 0x10000 \<le> cp \<and> cp \<le> 0x10FFFF
         then Some cp else None)"
| "utf8_decode _ = None"

definition utf16_units :: "nat \<Rightarrow> jsstring" where
  "utf16_units cp =
     (if cp < 0x10000 then [of_nat cp]
      else [of_nat (0xD800 + (cp - 0x10000) div 0x400), of_nat (0xDC00 + (cp - 0x10000) mod 0x400)])"

lemma continuation_octets_length:
  "continuation_octets n s = Some (bs, rest) \<Longrightarrow> length rest \<le> length s"
  by (induction n s arbitrary: bs rest rule: continuation_octets.induct)
     (auto split: if_splits option.splits prod.splits, fastforce)

function decodeURIComponent :: "jsstring \<Rightarrow> exn + jsstring" where
  "decodeURIComponent [] = Inr []"
| "decodeURIComponent (c # cs) =
     (if c \<noteq> 0x25 then
        (case decodeURIComponent cs of Inl e \<Rightarrow> Inl e | Inr r \<Rightarrow> Inr (c # r))
      else
        (case hex_octet cs of
           None \<Rightarrow> Inl URIError
         | Some b \<Rightarrow>
             if b < 0x80 then
               (case decodeURIComponent (drop 2 cs) of
                  Inl e \<Rightarrow> Inl e
                | Inr r \<Rightarrow> Inr (of_nat b # r))
             else if b < 0xC0 \<or> 0xF8 \<le> b then Inl URIError
             else
               (case continuation_octets (if b < 0xE0 then 1 else if b < 0xF0 then 2 else 3)
                       (drop 2 cs) of
                  None \<Rightarrow> Inl URIError
                | Some (bs, rest) \<Rightarrow>
                    (case utf8_decode (b # bs) of
                       None \<Rightarrow> Inl URIError
                     | Some cp \<Rightarrow>
                         (case decodeURIComponent rest of
                            Inl e \<Rightarrow> Inl e
                          | Inr r \<Rightarrow> Inr (utf16_units cp @ r))))))"
  by pat_completeness auto
termination
proof (relation "measure length")
  fix c :: code_unit and cs b x2 bs rest x2a
  assume "continuation_octets (if b < 0xE0 then 1 else if b < 0xF0 then 2 else 3) (drop 2 cs) = Some x2"
    and "(bs, rest) = x2"
  then have "length rest \<le> length (drop 2 cs)"
    using continuation_octets_length by metis
  then show "(rest, c # cs) \<in> measure length" by simp
qed auto

text \<open>\<^verbatim>\<open>s.replace(/c/g, d)\<close> for single characters, and \<^verbatim>\<open>s.replace(/=+$/g, "")\<close>.\<close>

definition replace_all :: "code_unit \<Rightarrow> code_unit \<Rightarrow> jsstring \<Rightarrow> jsstring" where
  "replace_all c d s = map (\<lambda>x. if x = c then d else x) s"

definition strip_trailing_equals :: "jsstring \<Rightarrow> jsstring" where
  "strip_trailing_equals s = rev (dropWhile (\<lambda>c. c = 0x3D) (rev s))"

definition base64urlEncode :: "jsstring \<Rightarrow> exn + jsstring" where
  "base64urlEncode str =
     (case encodeURIComponent str of
        Inl e \<Rightarrow> Inl e
      | Inr enc \<Rightarrow>
          (case btoa (unescape enc) of
             Inl e \<Rightarrow> Inl e
           | Inr b64 \<Rightarrow>
               Inr (strip_trailing_equals (replace_all 0x2F 0x5F (replace_all 0x2B 0x2D b64)))))"

definition base64urlDecode :: "jsstring \<Rightarrow> exn + jsstring" where
  "base64urlDecode b64url =
     (let b64 = replace_all 0x5F 0x2F (replace_all 0x2D 0x2B b64url)
                @ drop ((length b64url + 3) mod 4) (js ''==='')
      in case atob b64 of
           Inl e \<Rightarrow> Inl e
         | Inr bin \<Rightarrow> decodeURIComponent (escape bin))"

section \<open>Numbers\<close>

text \<open>
  A JavaScript number is a double: a finite value, an infinity or NaN.  A finite double
  is a rational number; \<open>-0\<close> is not told apart from \<open>0\<close> (no operation used here does).
\<close>

datatype jsnumber = Finite rat | PosInfinity | NegInfinity | NaN

definition pow2 :: "int \<Rightarrow> rat" where
  "pow2 e = (if 0 \<le> e then 2 ^ nat e else 1 / 2 ^ nat (- e))"

fun bit_length :: "nat \<Rightarrow> nat" where
  "bit_length n = (if n = 0 then 0 else Suc (bit_length (n div 2)))"

declare bit_length.simps [simp del]

text \<open>For \<open>a > 0\<close>, the exponent \<open>e\<close> with \<open>2 ^ e \<le> a < 2 ^ (e + 1)\<close>.\<close>

definition floor_log2 :: "rat \<Rightarrow> int" where
  "floor_log2 a =
     (case quotient_of a of
        (p, d) \<Rightarrow>
          let e0 = int (bit_length (nat p)) - int (bit_length (nat d))
          in if pow2 e0 \<le> a then e0 else e0 - 1)"

definition round_half_even :: "rat \<Rightarrow> int" where
  "round_half_even r =
     (let n = \<lfloor>r\<rfloor>; d = r - of_int n
      in if d < 1 / 2 then n else if 1 / 2 < d then n + 1 else if even n then n else n + 1)"

text \<open>The double nearest to a rational number (IEEE 754 binary64, ties to even): 53
  significant bits, the least exponent -1022, overflow to an infinity.\<close>

definition roundToDouble :: "rat \<Rightarrow> jsnumber" where
  "roundToDouble q =
     (if q = 0 then Finite 0
      else
        let a = \<bar>q\<bar>;
            e = max (floor_log2 a) (- 1022);
            u = pow2 (e - 52);
            v = of_int (round_half_even (a / u)) * u
        in if pow2 1024 \<le> v then (if 0 < q then PosInfinity else NegInfinity)
           else Finite (if 0 < q then v else - v))"

definition is_digit :: "code_unit \<Rightarrow> bool" where
  "is_digit c \<longleftrightarrow> 0x30 \<le> c \<and> c \<le> 0x39"

definition digits_value :: "jsstring \<Rightarrow> nat" where
  "digits_value ds = foldl (\<lambda>acc c. 10 * acc + (unat c - 0x30)) 0 ds"

text \<open>The decimal digits of a natural number, and of an integer.\<close>

definition digit_char :: "nat \<Rightarrow> code_unit" where
  "digit_char d = of_nat (0x30 + d)"

fun decimal :: "nat \<Rightarrow> jsstring" where
  "decimal n = (if n < 10 then [digit_char n] else decimal (n div 10) @ [digit_char (n mod 10)])"

declare decimal.simps [simp del]

definition decimal_int :: "int \<Rightarrow> jsstring" where
  "decimal_int i = (if i < 0 then 0x2D # decimal (nat (- i)) else decimal (nat i))"

text \<open>
  The exponent part of a numeric literal, \<^verbatim>\<open>[eE][+-]?[0-9]+\<close>, when the text starts with
  one: its value and the rest.  \<open>None\<close> when an \<^verbatim>\<open>e\<close> is not followed by digits.
\<close>

definition exponent_part :: "jsstring \<Rightarrow> (int \<times> jsstring) option" where
  "exponent_part s =
     (case s of
        [] \<Rightarrow> Some (0, s)
      | c # cs \<Rightarrow>
          if c = 0x65 \<or> c = 0x45 then
            (let neg = (cs \<noteq> [] \<and> hd cs = 0x2D);
                 cs' = (if cs \<noteq> [] \<and> (hd cs = 0x2D \<or> hd cs = 0x2B) then tl cs else cs);
                 ds = takeWhile is_digit cs'
             in if ds = [] then None
                else Some (if neg then - int (digits_value ds) else int (digits_value ds),
                           dropWhile is_digit cs'))
          else Some (0, s))"

definition pow10 :: "int \<Rightarrow> rat" where
  "pow10 e = (if 0 \<le> e then 10 ^ nat e else 1 / 10 ^ nat (- e))"

text \<open>A JSON number, \<^verbatim>\<open>-?(0|[1-9][0-9]*)(\.[0-9]+)?([eE][+-]?[0-9]+)?\<close>, at the start of
  the text: the double and the rest.\<close>

definition parse_number :: "jsstring \<Rightarrow> (jsnumber \<times> jsstring) option" where
  "parse_number s =
     (let neg = (s \<noteq> [] \<and> hd s = 0x2D);
          s1 = (if neg then tl s else s);
          ip = (if s1 \<noteq> [] \<and> hd s1 = 0x30 then [0x30] else takeWhile is_digit s1);
          s2 = drop (length ip) s1
      in if ip = [] then None
         else
           let has_frac = (s2 \<noteq> [] \<and> hd s2 = 0x2E);
               fp = (if has_frac then takeWhile is_digit (tl s2) else []);
               s3 = (if has_frac then dropWhile is_digit (tl s2) else s2)
           in if has_frac \<and> fp = [] then None
              else
                (case exponent_part s3 of
                   None \<Rightarrow> None
                 | Some (e, rest) \<Rightarrow>
                     let m = of_nat (digits_value (ip @ fp)) * pow10 (e - int (length fp))
                     in Some (roundToDouble (if neg then - m else m), rest)))"


text \<open>
  \<^verbatim>\<open>Number(s)\<close> for a string: white space around the literal is ignored and the empty
  string is 0; the literal is a signed decimal (with optional fraction and exponent, or
  \<^verbatim>\<open>Infinity\<close>) or an unsigned \<^verbatim>\<open>0x\<close>, \<^verbatim>\<open>0o\<close> or \<^verbatim>\<open>0b\<close> integer; anything else is NaN.
\<close>

definition radix_value :: "nat \<Rightarrow> jsstring \<Rightarrow> nat option" where
  "radix_value r ds =
     (if ds = [] \<or> (\<exists>c \<in> set ds. case hex_value c of None \<Rightarrow> True | Some d \<Rightarrow> r \<le> d) then None
      else Some (foldl (\<lambda>acc c. r * acc + the (hex_value c)) 0 ds))"

definition radix_of_prefix :: "jsstring \<Rightarrow> nat option" where
  "radix_of_prefix t =
     (case t of
        z # x # _ \<Rightarrow>
          if z \<noteq> 0x30 then None
          else if x = 0x78 \<or> x = 0x58 then Some 16
          else if x = 0x6F \<or> x = 0x4F then Some 8
          else if x = 0x62 \<or> x = 0x42 then Some 2
          else None
      | _ \<Rightarrow> None)"

definition StringToNumber :: "jsstring \<Rightarrow> jsnumber" where
  "StringToNumber s =
     (let t = trim s in
      if t = [] then Finite 0
      else
        (case radix_of_prefix t of
           Some r \<Rightarrow>
             (case radix_value r (drop 2 t) of
                None \<Rightarrow> NaN
              | Some n \<Rightarrow> roundToDouble (of_nat n))
         | None \<Rightarrow>
             let neg = (hd t = 0x2D);
                 t1 = (if hd t = 0x2D \<or> hd t = 0x2B then tl t else t)
             in if t1 = js ''Infinity'' then (if neg then NegInfinity else PosInfinity)
                else
                  let ip = takeWhile is_digit t1;
                      t2 = dropWhile is_digit t1;
                      has_dot = (t2 \<noteq> [] \<and> hd t2 = 0x2E);
                      fp = (if has_dot then takeWhile is_digit (tl t2) else []);
                      t3 = (if has_dot then dropWhile is_digit (tl t2) else t2)
                  in if ip = [] \<and> fp = [] then NaN
                     else
                       (case exponent_part t3 of
                          None \<Rightarrow> NaN
                        | Some (e, rest) \<Rightarrow>
                            if rest \<noteq> [] then NaN
                            else
                              let m = of_nat (digits_value (ip @ fp)) * pow10 (e - int (length fp))
                              in roundToDouble (if neg then - m else m))))"

text \<open>
  \<^verbatim>\<open>String(x)\<close> for a number.  For a positive finite \<open>x\<close>: the integers \<open>n\<close>, \<open>k\<close>,
  \<open>s\<close> with \<open>k\<close> digits in \<open>s\<close>, \<open>s * 10 ^ (n - k)\<close> rounding to \<open>x\<close>, and \<open>k\<close> as small
  as possible (of several \<open>s\<close>, the one nearest to \<open>x\<close>); then the layout by \<open>n\<close> and \<open>k\<close>.
  An integer of magnitude at most \<open>2 ^ 53\<close> is its own decimal digits: every integer of that
  size is a double, so no shorter digit string rounds to it.
\<close>

fun least_pow10_above :: "nat \<Rightarrow> int \<Rightarrow> rat \<Rightarrow> int" where
  "least_pow10_above 0 n x = n"
| "least_pow10_above (Suc fuel) n x = (if x < pow10 n then n else least_pow10_above fuel (n + 1) x)"

definition digit_candidates :: "rat \<Rightarrow> (nat \<times> int \<times> int) list" where
  "digit_candidates x =
     (let n0 = least_pow10_above 700 (- 330) x in
      concat (map (\<lambda>k.
        concat (map (\<lambda>n.
          filter (\<lambda>(k, n, s). 10 ^ (k - 1) \<le> s \<and> s < 10 ^ k
                    \<and> roundToDouble (of_int s * pow10 (n - int k)) = Finite x)
            [(k, n, \<lfloor>x / pow10 (n - int k)\<rfloor>), (k, n, \<lceil>x / pow10 (n - int k)\<rceil>)])
          [n0, n0 + 1]))
        [1..<18]))"

definition nearer :: "rat \<Rightarrow> (nat \<times> int \<times> int) \<Rightarrow> (nat \<times> int \<times> int) \<Rightarrow> (nat \<times> int \<times> int)" where
  "nearer x a b =
     (case (a, b) of
        ((k, n, s), (k', n', s')) \<Rightarrow>
          let da = \<bar>of_int s * pow10 (n - int k) - x\<bar>;
              db = \<bar>of_int s' * pow10 (n' - int k') - x\<bar>
          in if db < da \<or> (db = da \<and> even s' \<and> odd s) then b else a)"

definition shortest_digits :: "rat \<Rightarrow> (nat \<times> int \<times> int)" where
  "shortest_digits x =
     (case digit_candidates x of
        [] \<Rightarrow> (1, 0, 0)
      | c # cs \<Rightarrow> foldl (nearer x) c (filter (\<lambda>(k, n, s). k = fst c) cs))"

definition layout_digits :: "nat \<times> int \<times> int \<Rightarrow> jsstring" where
  "layout_digits c =
     (case c of
        (k, n, s) \<Rightarrow>
          let ds = decimal (nat s) in
          if int k \<le> n \<and> n \<le> 21 then ds @ replicate (nat (n - int k)) 0x30
          else if 0 < n \<and> n \<le> 21 then take (nat n) ds @ [0x2E] @ drop (nat n) ds
          else if - 6 < n \<and> n \<le> 0 then [0x30, 0x2E] @ replicate (nat (- n)) 0x30 @ ds
          else
            (if k = 1 then ds else take 1 ds @ [0x2E] @ drop 1 ds)
            @ [0x65, if 0 \<le> n - 1 then 0x2B else 0x2D] @ decimal (nat \<bar>n - 1\<bar>))"

definition NumberToString :: "jsnumber \<Rightarrow> jsstring" where
  "NumberToString x =
     (case x of
        NaN \<Rightarrow> js ''NaN''
      | PosInfinity \<Rightarrow> js ''Infinity''
      | NegInfinity \<Rightarrow> js ''-Infinity''
      | Finite q \<Rightarrow>
          if q = 0 then js ''0''
          else
            (if q < 0 then [0x2D] else [])
            @ (if of_int \<lfloor>\<bar>q\<bar>\<rfloor> = \<bar>q\<bar> \<and> \<bar>q\<bar> \<le> 2 ^ 53 then decimal (nat \<lfloor>\<bar>q\<bar>\<rfloor>)
               else layout_digits (shortest_digits \<bar>q\<bar>)))"

section \<open>Values\<close>

text \<open>The values \<^verbatim>\<open>JSON.parse\<close> returns, and \<^verbatim>\<open>undefined\<close> for a property that is
  absent.  An object is the list of its own properties in the order of the text; of two
  with the same key the later one counts.\<close>

datatype jsval =
    JUndefined
  | JNull
  | JBool bool
  | JNum jsnumber
  | JStr jsstring
  | JArr "jsval list"
  | JObj "(jsstring \<times> jsval) list"

text \<open>\<^verbatim>\<open>payload.order_id\<close>, \<^verbatim>\<open>payload.exp\<close>: the own property of an object, and
  \<^verbatim>\<open>undefined\<close> otherwise; no prototype of a parsed value has a property of these names.\<close>

definition Get :: "jsval \<Rightarrow> jsstring \<Rightarrow> jsval" where
  "Get v k =
     (case v of
        JObj props \<Rightarrow> (case map_of (rev props) k of Some x \<Rightarrow> x | None \<Rightarrow> JUndefined)
      | _ \<Rightarrow> JUndefined)"

definition ToBoolean :: "jsval \<Rightarrow> bool" where
  "ToBoolean v =
     (case v of
        JUndefined \<Rightarrow> False
      | JNull \<Rightarrow> False
      | JBool b \<Rightarrow> b
      | JNum n \<Rightarrow> n \<noteq> Finite 0 \<and> n \<noteq> NaN
      | JStr s \<Rightarrow> s \<noteq> []
      | JArr _ \<Rightarrow> True
      | JObj _ \<Rightarrow> True)"

text \<open>\<^verbatim>\<open>a || b\<close>\<close>

definition or_else :: "jsval \<Rightarrow> jsval \<Rightarrow> jsval" where
  "or_else a b = (if ToBoolean a then a else b)"

text \<open>
  \<^verbatim>\<open>String(v)\<close>.  An array is its elements joined by commas, \<^verbatim>\<open>null\<close> elements empty.
  An object is \<^verbatim>\<open>[object Object]\<close>, unless it has an own property \<^verbatim>\<open>toString\<close>: that
  property is no function, neither method gives a primitive, and the conversion throws.
\<close>

fun ToString :: "jsval \<Rightarrow> exn + jsstring"
  and join_elements :: "jsval list \<Rightarrow> exn + jsstring" where
  "ToString JUndefined = Inr (js ''undefined'')"
| "ToString JNull = Inr (js ''null'')"
| "ToString (JBool b) = Inr (if b then js ''true'' else js ''false'')"
| "ToString (JNum n) = Inr (NumberToString n)"
| "ToString (JStr s) = Inr s"
| "ToString (JArr xs) = join_elements xs"
| "ToString (JObj props) =
     (if js ''toString'' \<in> fst ` set props then Inl TypeError else Inr (js ''[object Object]''))"
| "join_elements [] = Inr []"
| "join_elements (x # xs) =
     (case (if x = JNull \<or> x = JUndefined then Inr [] else ToString x) of
        Inl e \<Rightarrow> Inl e
      | Inr a \<Rightarrow>
          if xs = [] then Inr a
          else (case join_elements xs of Inl e \<Rightarrow> Inl e | Inr b \<Rightarrow> Inr (a @ [0x2C] @ b)))"

text \<open>\<^verbatim>\<open>Number(v)\<close>\<close>

definition ToNumber :: "jsval \<Rightarrow> exn + jsnumber" where
  "ToNumber v =
     (case v of
        JUndefined \<Rightarrow> Inr NaN
      | JNull \<Rightarrow> Inr (Finite 0)
      | JBool b \<Rightarrow> Inr (Finite (if b then 1 else 0))
      | JNum n \<Rightarrow> Inr n
      | JStr s \<Rightarrow> Inr (StringToNumber s)
      | JArr xs \<Rightarrow> (case ToString (JArr xs) of Inl e \<Rightarrow> Inl e | Inr s \<Rightarrow> Inr (StringToNumber s))
      | JObj props \<Rightarrow>
          (case ToString (JObj props) of Inl e \<Rightarrow> Inl e | Inr s \<Rightarrow> Inr (StringToNumber s)))"

definition isFinite :: "jsnumber \<Rightarrow> bool" where
  "isFinite n = (case n of Finite _ \<Rightarrow> True | _ \<Rightarrow> False)"

text \<open>\<^verbatim>\<open>Date.now() > exp\<close>, for the integer \<^verbatim>\<open>Date.now()\<close>.\<close>

definition now_after :: "int \<Rightarrow> jsnumber \<Rightarrow> bool" where
  "now_after now n =
     (case n of
        Finite q \<Rightarrow> q < of_int now
      | NegInfinity \<Rightarrow> True
      | _ \<Rightarrow> False)"

section \<open>JSON\<close>

text \<open>
  \<^verbatim>\<open>JSON.stringify\<close> of a string: the string in double quotes, with \<^verbatim>\<open>"\<close> and \<^verbatim>\<open>\\<close>
  escaped, the control characters written \<^verbatim>\<open>\b \t \n \f \r\<close> or \<^verbatim>\<open>\u00xx\<close>, and an
  unpaired surrogate written \<^verbatim>\<open>\udxxx\<close>; a surrogate pair stays as it is.
\<close>

definition UnicodeEscape :: "code_unit \<Rightarrow> jsstring" where
  "UnicodeEscape c =
     [0x5C, 0x75, hex_digit (unat c div 4096), hex_digit (unat c div 256 mod 16),
      hex_digit (unat c div 16 mod 16), hex_digit (unat c mod 16)]"

definition quote_unit :: "code_unit \<Rightarrow> jsstring" where
  "quote_unit c =
     (if c = 0x08 then [0x5C, 0x62]
      else if c = 0x09 then [0x5C, 0x74]
      else if c = 0x0A then [0x5C, 0x6E]
      else if c = 0x0C then [0x5C, 0x66]
      else if c = 0x0D then [0x5C, 0x72]
      else if c = 0x22 then [0x5C, 0x22]
      else if c = 0x5C then [0x5C, 0x5C]
      else if c < 0x20 \<or> is_high_surrogate c \<or> is_low_surrogate c then UnicodeEscape c
      else [c])"

fun quote_units :: "jsstring \<Rightarrow> jsstring" where
  "quote_units [] = []"
| "quote_units [c] = quote_unit c"
| "quote_units (c # d # cs) =
     (if is_high_surrogate c \<and> is_low_surrogate d then c # d # quote_units cs
      else quote_unit c @ quote_units (d # cs))"

definition QuoteJSONString :: "jsstring \<Rightarrow> jsstring" where
  "QuoteJSONString s = [0x22] @ quote_units s @ [0x22]"

text \<open>
  \<^verbatim>\<open>JSON.stringify({ order_id, email, exp })\<close> for two strings and a finite number:
  the three properties in the order of the literal, no white space.
\<close>

definition JSON_stringify_payload :: "jsstring \<Rightarrow> jsstring \<Rightarrow> jsnumber \<Rightarrow> jsstring" where
  "JSON_stringify_payload order_id email exp' =
     [0x7B] @ QuoteJSONString (js ''order_id'') @ [0x3A] @ QuoteJSONString order_id
     @ [0x2C] @ QuoteJSONString (js ''email'') @ [0x3A] @ QuoteJSONString email
     @ [0x2C] @ QuoteJSONString (js ''exp'') @ [0x3A]
     @ (if isFinite exp' then NumberToString exp' else js ''null'')
     @ [0x7D]"

text \<open>
  \<^verbatim>\<open>JSON.parse\<close>.  White space is space, tab, line feed and carriage return.  The
  parser of values carries a bound on the number of nested parser calls, which
  \<open>JSON_parse\<close> sets above what any text of that length can need.
\<close>

definition is_json_ws :: "code_unit \<Rightarrow> bool" where
  "is_json_ws c \<longleftrightarrow> c \<in> {0x20, 0x09, 0x0A, 0x0D}"

definition skip_ws :: "jsstring \<Rightarrow> jsstring" where
  "skip_ws s = dropWhile is_json_ws s"

definition simple_escape :: "code_unit \<Rightarrow> code_unit option" where
  "simple_escape e =
     (if e = 0x22 then Some 0x22
      else if e = 0x5C then Some 0x5C
      else if e = 0x2F then Some 0x2F
      else if e = 0x62 then Some 0x08
      else if e = 0x66 then Some 0x0C
      else if e = 0x6E then Some 0x0A
      else if e = 0x72 then Some 0x0D
      else if e = 0x74 then Some 0x09
      else None)"

text \<open>The characters of a string, after its opening quote: the string and the text after
  its closing quote.\<close>

fun parse_string_chars :: "jsstring \<Rightarrow> (jsstring \<times> jsstring) option" where
  "parse_string_chars [] = None"
| "parse_string_chars (c # cs) =
     (if c = 0x22 then Some ([], cs)
      else if c = 0x5C then
        (case cs of
           [] \<Rightarrow> None
         | e # es \<Rightarrow>
             if e = 0x75 then
               (if length es < 4 then None
                else
                  (case parse_hex (take 4 es) of
                     None \<Rightarrow> None
                   | Some n \<Rightarrow>
                       (case parse_string_chars (drop 4 es) of
                          None \<Rightarrow> None
                        | Some (r, rest) \<Rightarrow> Some (of_nat n # r, rest))))
             else
               (case simple_escape e of
                  None \<Rightarrow> None
                | Some x \<Rightarrow>
                    (case parse_string_chars es of
                       None \<Rightarrow> None
                     | Some (r, rest) \<Rightarrow> Some (x # r, rest))))
      else if c < 0x20 then None
      else
        (case parse_string_chars cs of
           None \<Rightarrow> None
         | Some (r, rest) \<Rightarrow> Some (c # r, rest)))"

definition starts_with :: "jsstring \<Rightarrow> jsstring \<Rightarrow> bool" where
  "starts_with p s = (take (length p) s = p)"

fun parse_value :: "nat \<Rightarrow> jsstring \<Rightarrow> (jsval \<times> jsstring) option"
  and parse_elements :: "nat \<Rightarrow> jsstring \<Rightarrow> (jsval list \<times> jsstring) option"
  and parse_members :: "nat \<Rightarrow> jsstring \<Rightarrow> ((jsstring \<times> jsval) list \<times> jsstring) option" where
  "parse_value 0 s = None"
| "parse_value (Suc n) s =
     (case s of
        [] \<Rightarrow> None
      | c # cs \<Rightarrow>
          if c = 0x22 then
            (case parse_string_chars cs of
               None \<Rightarrow> None
             | Some (str, rest) \<Rightarrow> Some (JStr str, rest))
          else if c = 0x5B then
            (if starts_with [0x5D] (skip_ws cs) then Some (JArr [], tl (skip_ws cs))
             else
               (case parse_elements n (skip_ws cs) of
                  None \<Rightarrow> None
                | Some (xs, rest) \<Rightarrow> Some (JArr xs, rest)))
          else if c = 0x7B then
            (if starts_with [0x7D] (skip_ws cs) then Some (JObj [], tl (skip_ws cs))
             else
               (case parse_members n (skip_ws cs) of
                  None \<Rightarrow> None
                | Some (ms, rest) \<Rightarrow> Some (JObj ms, rest)))
          else if starts_with (js ''null'') s then Some (JNull, drop 4 s)
          else if starts_with (js ''true'') s then Some (JBool True, drop 4 s)
          else if starts_with (js ''false'') s then Some (JBool False, drop 5 s)
          else
            (case parse_number s of
               None \<Rightarrow> None
             | Some (x, rest) \<Rightarrow> Some (JNum x, rest)))"
| "parse_elements 0 s = None"
| "parse_elements (Suc n) s =
     (case parse_value n s of
        None \<Rightarrow> None
      | Some (v, r) \<Rightarrow>
          (case skip_ws r of
             [] \<Rightarrow> None
           | c # r' \<Rightarrow>
               if c = 0x2C then
                 (case parse_elements n (skip_ws r') of
                    None \<Rightarrow> None
                  | Some (vs, rest) \<Rightarrow> Some (v # vs, rest))
               else if c = 0x5D then Some ([v], r')
               else None))"
| "parse_members 0 s = None"
| "parse_members (Suc n) s =
     (case s of
        [] \<Rightarrow> None
      | q # cs \<Rightarrow>
          if q \<noteq> 0x22 then None
          else
            (case parse_string_chars cs of
               None \<Rightarrow> None
             | Some (k, r) \<Rightarrow>
                 (case skip_ws r of
                    [] \<Rightarrow> None
                  | colon # r1 \<Rightarrow>
                      if colon \<noteq> 0x3A then None
                      else
                        (case parse_value n (skip_ws r1) of
                           None \<Rightarrow> None
                         | Some (v, r2) \<Rightarrow>
                             (case skip_ws r2 of
                                [] \<Rightarrow> None
                              | c # r3 \<Rightarrow>
                                  if c = 0x2C then
                                    (case parse_members n (skip_ws r3) of
                                       None \<Rightarrow> None
                                     | Some (ms, rest) \<Rightarrow> Some ((k, v) # ms, rest))
                                  else if c = 0x7D then Some ([(k, v)], r3)
                                  else None)))))"

definition JSON_parse :: "jsstring \<Rightarrow> exn + jsval" where
  "JSON_parse text =
     (case parse_value (2 * length text + 2) (skip_ws text) of
        None \<Rightarrow> Inl SyntaxError
      | Some (v, rest) \<Rightarrow> if skip_ws rest = [] then Inr v else Inl SyntaxError)"

section \<open>Review link token\<close>

text \<open>The first and the second element of \<^verbatim>\<open>const [payloadB64, sigHex] = ...split(".")\<close>;
  an element the array does not have is \<^verbatim>\<open>undefined\<close>.\<close>

definition element :: "jsstring list \<Rightarrow> nat \<Rightarrow> jsstring option" where
  "element xs i = (if i < length xs then Some (xs ! i) else None)"

text \<open>
  \<^verbatim>\<open>createReviewToken(env, { order_id, email })\<close>.  \<open>toLowerCase\<close> is
  \<^verbatim>\<open>String.prototype.toLowerCase\<close>, the case mapping of the Unicode tables of the platform,
  and \<open>now\<close> is \<^verbatim>\<open>Date.now()\<close>, an integer number of milliseconds.
\<close>

definition createReviewToken ::
  "(jsstring \<Rightarrow> jsstring) \<Rightarrow> Env \<Rightarrow> jsstring \<Rightarrow> jsstring \<Rightarrow> int \<Rightarrow> exn + jsstring" where
  "createReviewToken toLowerCase env order_id email now =
     (if \<not> truthy (REVIEW_LINK_SECRET env) then Inl (Error ''Missing REVIEW_LINK_SECRET'')
      else
        let exp' = roundToDouble (of_int now + 45 * 24 * 60 * 60 * 1000);
            payloadStr = JSON_stringify_payload order_id (toLowerCase email) exp'
        in case base64urlEncode payloadStr of
             Inl e \<Rightarrow> Inl e
           | Inr payloadB64 \<Rightarrow>
               let sigHex = hmacHex (the (REVIEW_LINK_SECRET env)) payloadB64
               in Inr (payloadB64 @ js ''.'' @ sigHex))"

definition verifyReviewToken :: "Env \<Rightarrow> jsstring \<Rightarrow> jsstring \<Rightarrow> int \<Rightarrow> exn + bool" where
  "verifyReviewToken env token order_id now =
     (if \<not> truthy (REVIEW_LINK_SECRET env) then Inr False
      else
        let segs = split 0x2E token;
            payloadB64 = element segs 0;
            sigHex = element segs 1
        in if \<not> truthy payloadB64 \<or> \<not> truthy sigHex then Inr False
           else
             let expected = hmacHex (the (REVIEW_LINK_SECRET env)) (the payloadB64)
             in if \<not> timingSafeEqualHex expected (the sigHex) then Inr False
                else
                  (case (case base64urlDecode (the payloadB64) of
                           Inl e \<Rightarrow> Inl e
                         | Inr str \<Rightarrow> JSON_parse str) of
                     Inl e \<Rightarrow> Inr False
                   | Inr payload \<Rightarrow>
                       if \<not> ToBoolean payload then Inr False
                       else
                         (case ToString (or_else (Get payload (js ''order_id'')) (JStr [])) of
                            Inl e \<Rightarrow> Inl e
                          | Inr embedded \<Rightarrow>
                              if embedded \<noteq> order_id then Inr False
                              else
                                (case ToNumber (or_else (Get payload (js ''exp''))
                                                  (JNum (Finite 0))) of
                                   Inl e \<Rightarrow> Inl e
                                 | Inr exp' \<Rightarrow>
                                     if \<not> isFinite exp' \<or> now_after now exp' then Inr False
                                     else Inr True))))"

section \<open>Notions of the specification\<close>

text \<open>The characters of a lowercase hexadecimal digest.\<close>

definition is_lower_hex :: "code_unit \<Rightarrow> bool" where
  "is_lower_hex c \<longleftrightarrow> (0x30 \<le> c \<and> c \<le> 0x39) \<or> (0x61 \<le> c \<and> c \<le> 0x66)"

text \<open>
  A signature header read as a comma-separated list of \<^verbatim>\<open>key=value\<close> pairs has an
  entry for a key when one of its segments, cut at \<^verbatim>\<open>=\<close> and trimmed, starts with that
  key and a non-empty value.
\<close>

definition has_entry :: "jsstring \<Rightarrow> jsstring \<Rightarrow> bool" where
  "has_entry key header =
     (\<exists>seg \<in> set (split 0x2C header).
        case map trim (split 0x3D seg) of
          k # v # _ \<Rightarrow> k = key \<and> k \<noteq> [] \<and> v \<noteq> []
        | _ \<Rightarrow> False)"

text \<open>
  The two halves of a token: the text before the first dot, and the text between the first
  dot and the next one (or the end).  A token has the two-part structure when it has a dot
  and neither half is empty.  The payload of a token is what its payload half decodes and
  parses to.
\<close>

definition payload_half :: "jsstring \<Rightarrow> jsstring" where
  "payload_half token = takeWhile (\<lambda>c. c \<noteq> 0x2E) token"

definition signature_half :: "jsstring \<Rightarrow> jsstring" where
  "signature_half token =
     takeWhile (\<lambda>c. c \<noteq> 0x2E) (drop 1 (dropWhile (\<lambda>c. c \<noteq> 0x2E) token))"

definition two_part :: "jsstring \<Rightarrow> bool" where
  "two_part token \<longleftrightarrow>
     0x2E \<in> set token \<and> payload_half token \<noteq> [] \<and> signature_half token \<noteq> []"

definition token_payload :: "jsstring \<Rightarrow> exn + jsval" where
  "token_payload token =
     (case base64urlDecode (payload_half token) of
        Inl e \<Rightarrow> Inl e
      | Inr str \<Rightarrow> JSON_parse str)"

text \<open>
  The payload object of a token: the three fields, in the order of the object literal of
  \<^verbatim>\<open>createReviewToken\<close>.
\<close>

definition payload_object :: "jsstring \<Rightarrow> jsstring \<Rightarrow> int \<Rightarrow> jsval" where
  "payload_object order_id email exp' =
     JObj [(js ''order_id'', JStr order_id), (js ''email'', JStr email),
           (js ''exp'', JNum (Finite (of_int exp')))]"

text \<open>
  A string is well formed when it has no unpaired surrogate; \<open>utf8\<close> is its UTF-8
  encoding, and \<open>base64url\<close> the unpadded URL-safe base64 text of these bytes.
\<close>

definition well_formed :: "jsstring \<Rightarrow> bool" where
  "well_formed s \<longleftrightarrow> (\<forall>cp \<in> set (code_points s). \<not> is_surrogate cp)"

definition is_ascii :: "code_unit \<Rightarrow> bool" where
  "is_ascii c \<longleftrightarrow> c < 0x80"

definition utf8 :: "jsstring \<Rightarrow> nat list" where
  "utf8 s = concat (map utf8_bytes (code_points s))"

definition base64url :: "jsstring \<Rightarrow> jsstring" where
  "base64url s =
     strip_trailing_equals (replace_all 0x2F 0x5F (replace_all 0x2B 0x2D (base64_encode (utf8 s))))"

text \<open>The 6-bit groups of a list of bytes, the last one filled with zero bits.\<close>

fun sextets :: "nat list \<Rightarrow> nat list" where
  "sextets [] = []"
| "sextets [a] = [a div 4, a mod 4 * 16]"
| "sextets [a, b] = [a div 4, a mod 4 * 16 + b div 16, b mod 16 * 4]"
| "sextets (a # b # c # bs) =
     [a div 4, a mod 4 * 16 + b div 16, b mod 16 * 4 + c div 64, c mod 64] @ sextets bs"

text \<open>The two replacements of \<^verbatim>\<open>base64urlEncode\<close> on one character, and the two of
  \<^verbatim>\<open>base64urlDecode\<close>.\<close>

definition url_char :: "code_unit \<Rightarrow> code_unit" where
  "url_char c = (if c = 0x2B then 0x2D else if c = 0x2F then 0x5F else c)"

definition unurl_char :: "code_unit \<Rightarrow> code_unit" where
  "unurl_char c = (if c = 0x2D then 0x2B else if c = 0x5F then 0x2F else c)"

text \<open>\<^verbatim>\<open>toLowerCase\<close> on a string of ASCII characters.\<close>

definition ascii_lower :: "jsstring \<Rightarrow> jsstring" where
  "ascii_lower s = map (\<lambda>c. if 0x41 \<le> c \<and> c \<le> 0x5A then c + 0x20 else c) s"

text \<open>
  A token with a valid signature on a payload text: the URL-safe base64 of the text, a dot,
  and the digest of that under the secret.
\<close>

definition signed_token :: "jsstring \<Rightarrow> jsstring \<Rightarrow> jsstring" where
  "signed_token secret text = base64url text @ js ''.'' @ hmacHex secret (base64url text)"

text \<open>
  Three payload texts that \<open>createReviewToken\<close> does not issue:
  \<^verbatim>\<open>{"order_id":123,"exp":9999999999999}\<close>, with a number for the order id;
  \<^verbatim>\<open>{"order_id":{"toString":1},"exp":\<close>\<open>digits\<close>\<^verbatim>\<open>}\<close>, with an object for the order
  id; and \<^verbatim>\<open>{"order_id":"FF-1","exp":"9999999999999"}\<close>, with a string for the expiry.
\<close>

definition numeric_order_id_text :: jsstring where
  "numeric_order_id_text =
     js ''{'' @ QuoteJSONString (js ''order_id'') @ js '':123,''
     @ QuoteJSONString (js ''exp'') @ js '':9999999999999}''"

definition object_order_id_text :: "jsstring \<Rightarrow> jsstring" where
  "object_order_id_text digits =
     js ''{'' @ QuoteJSONString (js ''order_id'') @ js '':{''
     @ QuoteJSONString (js ''toString'') @ js '':1},''
     @ QuoteJSONString (js ''exp'') @ js '':'' @ digits @ js ''}''"

definition string_exp_text :: jsstring where
  "string_exp_text =
     js ''{'' @ QuoteJSONString (js ''order_id'') @ js '':'' @ QuoteJSONString (js ''FF-1'')
     @ js '','' @ QuoteJSONString (js ''exp'') @ js '':''
     @ QuoteJSONString (js ''9999999999999'') @ js ''}''"


section \<open>Properties of the constant-time comparison\<close>

lemma ucast_inj_16_32: "(ucast (x :: 16 word) :: 32 word) = ucast y \<longleftrightarrow> x = y"
proof
  assume "(ucast x :: 32 word) = ucast y"
  then have "(ucast (ucast x :: 32 word) :: 16 word) = ucast (ucast y :: 32 word)" by simp
  then show "x = y" by (simp add: ucast_up_ucast_id is_up)
qed simp

lemma xor_eq_0: "(x :: 32 word) XOR y = 0 \<longleftrightarrow> x = y"
proof
  assume "x XOR y = 0"
  then have "(x XOR y) XOR y = y" by simp
  then show "x = y" by (simp add: xor.assoc)
qed simp

lemma xor_loop_fold:
  "xor_loop a b i out =
     (max i (length a),
      fold (\<lambda>j acc. acc OR (charCodeAt a j XOR charCodeAt b j)) [i..<length a] out)"
proof (induction a b i out rule: xor_loop.induct)
  case (1 a b i out)
  show ?case
  proof (cases "i < length a")
    case True
    then show ?thesis
      using "1" by (subst xor_loop.simps) (simp add: upt_conv_Cons max_def)
  next
    case False
    then show ?thesis by (subst xor_loop.simps) (simp add: max_def)
  qed
qed

lemma fold_or_eq_0:
  "fold (\<lambda>j acc. acc OR f j) ks (out :: 32 word) = 0 \<longleftrightarrow> out = 0 \<and> (\<forall>j\<in>set ks. f j = 0)"
  by (induction ks arbitrary: out) (auto simp: or_eq_0_iff)

lemma charCodeAt_xor_0:
  "i < length a \<Longrightarrow> i < length b \<Longrightarrow> charCodeAt a i XOR charCodeAt b i = 0 \<longleftrightarrow> a ! i = b ! i"
  by (simp add: charCodeAt_def xor_eq_0 ucast_inj_16_32)

lemma xor_loop_zero_iff:
  assumes "length a = length b"
  shows "snd (xor_loop a b 0 0) = 0 \<longleftrightarrow> a = b"
proof -
  have "snd (xor_loop a b 0 0) = 0 \<longleftrightarrow> (\<forall>j<length a. a ! j = b ! j)"
    using assms by (auto simp: xor_loop_fold fold_or_eq_0 charCodeAt_xor_0)
  with assms show ?thesis by (auto intro: nth_equalityI)
qed

lemma timingSafeEqualHex_iff: "timingSafeEqualHex a b \<longleftrightarrow> a = b"
  by (cases "length a = length b") (auto simp: timingSafeEqualHex_def xor_loop_zero_iff)

text \<open>
  Claim C2.  \<open>timingSafeEqualHex\<close> answers \<open>False\<close> at once when the lengths differ.  For
  inputs of equal length the loop runs over every index from 0 to the length, whatever the
  contents (its final index is the length), accumulating with OR the XOR of every pair of
  code units; the answer is whether the accumulator is zero, which holds exactly when the two
  strings are equal code unit for code unit.  \<open>verifyStripeWebhookRaw\<close> runs the same
  loop on \<open>sigHex\<close> and \<open>v1\<close>.
\<close>

theorem timingSafeEqualHex_constant_time:
  "(length a \<noteq> length b \<longrightarrow> timingSafeEqualHex a b = False) \<and>
   (length a = length b \<longrightarrow>
      xor_loop a b 0 0 =
        (length a, fold (\<lambda>i out. out OR (charCodeAt a i XOR charCodeAt b i)) [0..<length a] 0) \<and>
      timingSafeEqualHex a b = (snd (xor_loop a b 0 0) = 0)) \<and>
   (timingSafeEqualHex a b \<longleftrightarrow> a = b)"
proof (intro conjI impI)
  assume "length a \<noteq> length b"
  then show "timingSafeEqualHex a b = False" by (simp add: timingSafeEqualHex_def)
next
  show "xor_loop a b 0 0 =
    (length a, fold (\<lambda>i out. out OR (charCodeAt a i XOR charCodeAt b i)) [0..<length a] 0)"
    by (simp add: xor_loop_fold)
next
  assume "length a = length b"
  then show "timingSafeEqualHex a b = (snd (xor_loop a b 0 0) = 0)"
    by (simp add: timingSafeEqualHex_def)
next
  show "timingSafeEqualHex a b \<longleftrightarrow> a = b" by (rule timingSafeEqualHex_iff)
qed

theorem timingSafeEqualHex_constant_time_witness:
  "timingSafeEqualHex (js ''ab12'') (js ''ab12'') \<and>
   \<not> timingSafeEqualHex (js ''ab12'') (js ''ab13'') \<and>
   \<not> timingSafeEqualHex (js ''ab12'') (js ''ab1'') \<and>
   fst (xor_loop (js ''ab12'') (js ''xb12'') 0 0) = 4 \<and>
   fst (xor_loop (js ''ab12'') (js ''ab1x'') 0 0) = 4"
proof -
  note iff = timingSafeEqualHex_constant_time [THEN conjunct2, THEN conjunct2]
  note full = timingSafeEqualHex_constant_time [THEN conjunct2, THEN conjunct1, THEN mp, THEN conjunct1]
  have "timingSafeEqualHex (js ''ab12'') (js ''ab12'')"
    by (simp add: iff)
  moreover have "\<not> timingSafeEqualHex (js ''ab12'') (js ''ab13'')"
    by (simp add: iff js_def)
  moreover have "\<not> timingSafeEqualHex (js ''ab12'') (js ''ab1'')"
    by (simp add: iff js_def)
  moreover have "fst (xor_loop (js ''ab12'') (js ''xb12'') 0 0) = 4"
    by (subst full) (simp_all add: js_def)
  moreover have "fst (xor_loop (js ''ab12'') (js ''ab1x'') 0 0) = 4"
    by (subst full) (simp_all add: js_def)
  ultimately show ?thesis by blast
qed


section \<open>Properties of the hexadecimal digest\<close>

lemma less_16_cases:
  "n < 16 \<Longrightarrow> n \<in> {0, 1, 2, 3, 4, 5, 6, 7, 8, 9, 10, 11, 12, 13, 14, 15 :: nat}"
  by simp arith

lemma hex_digit_lower_hex: "n < 16 \<Longrightarrow> is_lower_hex (hex_digit n)"
  by (drule less_16_cases) (auto simp: hex_digit_def is_lower_hex_def)

lemma padStart2_toString16:
  "padStart2 (toString16 b) = [hex_digit (unat b div 16), hex_digit (unat b mod 16)]"
  by (auto simp: padStart2_def toString16_def hex_digit_def numeral_2_eq_2)

lemma unat_byte_div_16: "unat (b :: byte) div 16 < 16"
proof -
  have "unat b < 2 ^ LENGTH(8)" by (rule unsigned_less)
  then show ?thesis by simp
qed

lemma hex_of_bytes_Cons:
  "hex_of_bytes (b # bs) = hex_digit (unat b div 16) # hex_digit (unat b mod 16) # hex_of_bytes bs"
  by (simp add: hex_of_bytes_def padStart2_toString16)

lemma hex_of_bytes_Nil: "hex_of_bytes [] = []"
  by (simp add: hex_of_bytes_def)

lemma length_hex_of_bytes: "length (hex_of_bytes bs) = 2 * length bs"
  by (induction bs) (simp_all add: hex_of_bytes_Cons hex_of_bytes_Nil)

lemma hex_of_bytes_lower_hex: "c \<in> set (hex_of_bytes bs) \<Longrightarrow> is_lower_hex c"
  by (induction bs)
     (auto simp: hex_of_bytes_Cons hex_of_bytes_Nil hex_digit_lower_hex unat_byte_div_16)

lemma length_sha256: "length (sha256 m) = 32"
  by (simp add: sha256_def Let_def word32_bytes_def split: prod.splits)

lemma length_hmac_sha256: "length (hmac_sha256 key m) = 32"
  by (simp add: hmac_sha256_def Let_def length_sha256)

lemma length_hmacHex: "length (hmacHex secret message) = 64"
  by (simp add: hmacHex_def length_hex_of_bytes length_hmac_sha256)

lemma hmacHex_lower_hex: "c \<in> set (hmacHex secret message) \<Longrightarrow> is_lower_hex c"
  by (simp add: hmacHex_def hex_of_bytes_lower_hex)

lemma hmacHex_nonempty: "hmacHex secret message \<noteq> []"
  using length_hmacHex [of secret message] by auto

section \<open>Properties of the webhook verifier\<close>

lemma split_not_Nil: "split sep s \<noteq> []"
  by (induction s) (auto split: list.splits)

lemma split_no_sep: "sep \<notin> set s \<Longrightarrow> split sep s = [s]"
  by (induction s) auto

lemma split_append_sep: "sep \<notin> set a \<Longrightarrow> split sep (a @ sep # b) = a # split sep b"
  by (induction a) (auto split: list.splits simp: split_not_Nil)

lemma trim_id: "\<forall>c \<in> set s. \<not> isWhiteSpace c \<Longrightarrow> trim s = s"
proof -
  assume a: "\<forall>c \<in> set s. \<not> isWhiteSpace c"
  then have "dropWhile isWhiteSpace s = s"
    by (cases s) auto
  moreover from a have "dropWhile isWhiteSpace (rev s) = rev s"
    by (cases "s = []") (simp_all add: dropWhile_eq_self_iff hd_rev)
  ultimately show ?thesis by (simp add: trim_def)
qed

lemma lower_hex_not_special:
  assumes "is_lower_hex c"
  shows "\<not> isWhiteSpace c" "c \<noteq> 0x2C" "c \<noteq> 0x3D" "c \<noteq> 0x2E"
  using assms by (auto simp: is_lower_hex_def isWhiteSpace_def word_le_nat_alt)

lemma hmacHex_no_special:
  "0x2C \<notin> set (hmacHex k m)" "0x3D \<notin> set (hmacHex k m)" "0x2E \<notin> set (hmacHex k m)"
  "\<forall>c \<in> set (hmacHex k m). \<not> isWhiteSpace c"
  using hmacHex_lower_hex lower_hex_not_special by blast+

lemma header_segment_values:
  assumes "\<And>k v. parts k = Some v \<Longrightarrow> v \<noteq> []"
    and "header_segment parts seg k = Some v"
  shows "v \<noteq> []"
  using assms
  by (auto simp: header_segment_def assign_def truthy_def split: list.splits if_splits)

lemma foldl_header_segment_values:
  assumes "\<And>k v. parts k = Some v \<Longrightarrow> v \<noteq> []"
    and "foldl header_segment parts segs k = Some v"
  shows "v \<noteq> []"
  using assms
proof (induction segs arbitrary: parts)
  case Nil
  then show ?case by simp
next
  case (Cons seg segs)
  show ?case
  proof (rule Cons.IH)
    show "foldl header_segment (header_segment parts seg) segs k = Some v"
      using Cons.prems(2) by simp
    show "\<And>k v. header_segment parts seg k = Some v \<Longrightarrow> v \<noteq> []"
      using Cons.prems(1) header_segment_values by blast
  qed
qed

lemma header_parts_values: "header_parts h k = Some v \<Longrightarrow> v \<noteq> []"
  unfolding header_parts_def by (rule foldl_header_segment_values [of Map.empty]) simp_all

lemma header_segment_None:
  assumes "key \<noteq> js ''__proto__''"
  shows "header_segment parts seg key = None \<longleftrightarrow>
     parts key = None \<and>
     \<not> (case map trim (split 0x3D seg) of k # v # _ \<Rightarrow> k = key \<and> k \<noteq> [] \<and> v \<noteq> [] | _ \<Rightarrow> False)"
  using assms
  by (auto simp: header_segment_def assign_def truthy_def split: list.splits if_splits)

lemma foldl_header_segment_None:
  assumes "key \<noteq> js ''__proto__''"
  shows "foldl header_segment parts segs key = None \<longleftrightarrow>
     parts key = None \<and>
     \<not> (\<exists>seg \<in> set segs.
          case map trim (split 0x3D seg) of k # v # _ \<Rightarrow> k = key \<and> k \<noteq> [] \<and> v \<noteq> [] | _ \<Rightarrow> False)"
  by (induction segs arbitrary: parts) (auto simp: header_segment_None [OF assms])

lemma header_parts_None_iff:
  "key \<noteq> js ''__proto__'' \<Longrightarrow> header_parts h key = None \<longleftrightarrow> \<not> has_entry key h"
  by (simp add: header_parts_def has_entry_def foldl_header_segment_None)

lemma js_t_neq: "js ''t'' \<noteq> js ''__proto__''" "js ''v1'' \<noteq> js ''__proto__''"
  by (simp_all add: js_def)

text \<open>
  Claim C3.  With the webhook secret configured and a signature header from which the
  verifier extracts a \<open>t\<close> and a \<open>v1\<close>, \<open>verifyStripeWebhookRaw\<close> returns \<open>True\<close> exactly
  when the lowercase hexadecimal HMAC-SHA-256, under the secret, of \<open>t\<close>, a dot and the
  raw body concatenated as strings has the length of \<open>v1\<close> and equals it code unit for
  code unit.
\<close>

theorem verifyStripeWebhookRaw_iff:
  assumes "STRIPE_WEBHOOK_SECRET env = Some secret" and "secret \<noteq> []"
    and "header_parts stripeSignature (js ''t'') = Some t"
    and "header_parts stripeSignature (js ''v1'') = Some v1"
  shows "verifyStripeWebhookRaw env stripeSignature rawText =
     Inr (length (hex_of_bytes (hmac_sha256 (TextEncoder_encode secret)
                                  (TextEncoder_encode (t @ js ''.'' @ rawText)))) = length v1 \<and>
          hex_of_bytes (hmac_sha256 (TextEncoder_encode secret)
                          (TextEncoder_encode (t @ js ''.'' @ rawText))) = v1)"
proof -
  have "t \<noteq> []" "v1 \<noteq> []"
    using assms(3,4) header_parts_values by blast+
  then show ?thesis
    using assms by (auto simp: verifyStripeWebhookRaw_def truthy_def Let_def xor_loop_zero_iff)
qed

lemma header_parts_example:
  "header_parts (js ''t=1700000000,v1=abc123'') (js ''t'') = Some (js ''1700000000'')"
  "header_parts (js ''t=1700000000,v1=abc123'') (js ''v1'') = Some (js ''abc123'')"
  by (simp_all add: header_parts_def header_segment_def assign_def truthy_def js_def trim_def
      isWhiteSpace_def)

lemma header_parts_signed:
  "header_parts (js ''t=1700000000,v1='' @ hmacHex k m) (js ''t'') = Some (js ''1700000000'')"
  "header_parts (js ''t=1700000000,v1='' @ hmacHex k m) (js ''v1'') = Some (hmacHex k m)"
proof -
  have s1: "split 0x2C (js ''t=1700000000,v1='' @ hmacHex k m)
            = [js ''t=1700000000'', js ''v1='' @ hmacHex k m]"
    using split_append_sep [of "0x2C" "js ''t=1700000000''" "js ''v1='' @ hmacHex k m"]
      split_no_sep [of "0x2C" "js ''v1='' @ hmacHex k m"] hmacHex_no_special(1) [of k m]
    by (simp add: js_def)
  have s2: "split 0x3D (js ''v1='' @ hmacHex k m) = [js ''v1'', hmacHex k m]"
    using split_append_sep [of "0x3D" "js ''v1''" "hmacHex k m"]
      split_no_sep [of "0x3D" "hmacHex k m"] hmacHex_no_special(2) [of k m]
    by (simp add: js_def)
  have s3: "split 0x3D (js ''t=1700000000'') = [js ''t'', js ''1700000000'']"
    by (simp add: js_def)
  have t1: "trim (hmacHex k m) = hmacHex k m"
    by (rule trim_id) (rule hmacHex_no_special(4))
  have t2: "trim (js ''v1'') = js ''v1''" "trim (js ''t'') = js ''t''"
    "trim (js ''1700000000'') = js ''1700000000''"
    by (simp_all add: trim_def js_def isWhiteSpace_def)
  have ne: "hmacHex k m \<noteq> []" by (rule hmacHex_nonempty)
  have neq: "js ''v1'' \<noteq> js ''t''" "js ''v1'' \<noteq> js ''__proto__''" "js ''t'' \<noteq> js ''__proto__''"
    "js ''t'' \<noteq> []" "js ''v1'' \<noteq> []" "js ''1700000000'' \<noteq> []"
    by (simp_all add: js_def)
  show "header_parts (js ''t=1700000000,v1='' @ hmacHex k m) (js ''t'') = Some (js ''1700000000'')"
    using neq ne
    by (simp add: header_parts_def s1 s2 s3 t1 t2 header_segment_def assign_def truthy_def)
  show "header_parts (js ''t=1700000000,v1='' @ hmacHex k m) (js ''v1'') = Some (hmacHex k m)"
    using neq ne
    by (simp add: header_parts_def s1 s2 s3 t1 t2 header_segment_def assign_def truthy_def)
qed

theorem verifyStripeWebhookRaw_iff_witness:
  "verifyStripeWebhookRaw \<lparr>STRIPE_WEBHOOK_SECRET = Some (js ''whsec''), REVIEW_LINK_SECRET = None\<rparr>
     (js ''t=1700000000,v1=abc123'') (js ''{}'') = Inr False \<and>
   verifyStripeWebhookRaw \<lparr>STRIPE_WEBHOOK_SECRET = Some (js ''whsec''), REVIEW_LINK_SECRET = None\<rparr>
     (js ''t=1700000000,v1='' @ hmacHex (js ''whsec'') (js ''1700000000.{}'')) (js ''{}'') = Inr True"
proof -
  let ?env = "\<lparr>STRIPE_WEBHOOK_SECRET = Some (js ''whsec''), REVIEW_LINK_SECRET = None\<rparr>"
  have sec: "STRIPE_WEBHOOK_SECRET ?env = Some (js ''whsec'')" "js ''whsec'' \<noteq> []"
    by (simp_all add: js_def)
  have cat: "js ''1700000000'' @ js ''.'' @ js ''{}'' = js ''1700000000.{}''"
    by (simp add: js_def)
  have "verifyStripeWebhookRaw ?env (js ''t=1700000000,v1=abc123'') (js ''{}'') = Inr False"
    using verifyStripeWebhookRaw_iff [OF sec header_parts_example, of "js ''{}''"]
    by (simp add: length_hex_of_bytes length_hmac_sha256 js_def)
  moreover have "verifyStripeWebhookRaw ?env
      (js ''t=1700000000,v1='' @ hmacHex (js ''whsec'') (js ''1700000000.{}'')) (js ''{}'') = Inr True"
    using verifyStripeWebhookRaw_iff [OF sec header_parts_signed, of "js ''whsec''" "js ''1700000000.{}''" "js ''{}''"]
    by (simp add: cat hmacHex_def)
  ultimately show ?thesis by blast
qed

text \<open>
  Claim C6.  With the webhook secret configured, a signature header that has no entry for
  \<open>t\<close> or no entry for \<open>v1\<close> makes \<open>verifyStripeWebhookRaw\<close> return \<open>False\<close>, not an
  exception, whatever the secret and the body are: the result is fixed before any digest is
  computed or compared.
\<close>

theorem verifyStripeWebhookRaw_fail_closed:
  assumes "STRIPE_WEBHOOK_SECRET env = Some secret" and "secret \<noteq> []"
    and "\<not> has_entry (js ''t'') stripeSignature \<or> \<not> has_entry (js ''v1'') stripeSignature"
  shows "verifyStripeWebhookRaw env stripeSignature rawText = Inr False"
proof -
  have "header_parts stripeSignature (js ''t'') = None \<or> header_parts stripeSignature (js ''v1'') = None"
    using assms(3) by (simp add: header_parts_None_iff js_t_neq)
  then show ?thesis
    using assms(1,2) by (auto simp: verifyStripeWebhookRaw_def truthy_def Let_def)
qed

theorem verifyStripeWebhookRaw_fail_closed_witness:
  "\<not> has_entry (js ''v1'') (js ''t=1700000000'') \<and>
   verifyStripeWebhookRaw \<lparr>STRIPE_WEBHOOK_SECRET = Some (js ''whsec''), REVIEW_LINK_SECRET = None\<rparr>
     (js ''t=1700000000'') (js ''{}'') = Inr False \<and>
   \<not> has_entry (js ''t'') (js ''v1=abc123,v0=t'') \<and>
   verifyStripeWebhookRaw \<lparr>STRIPE_WEBHOOK_SECRET = Some (js ''whsec''), REVIEW_LINK_SECRET = None\<rparr>
     (js ''v1=abc123,v0=t'') (js ''{}'') = Inr False"
proof -
  let ?env = "\<lparr>STRIPE_WEBHOOK_SECRET = Some (js ''whsec''), REVIEW_LINK_SECRET = None\<rparr>"
  have sec: "STRIPE_WEBHOOK_SECRET ?env = Some (js ''whsec'')" "js ''whsec'' \<noteq> []"
    by (simp_all add: js_def)
  have h1: "\<not> has_entry (js ''v1'') (js ''t=1700000000'')"
    by (simp add: has_entry_def js_def trim_def isWhiteSpace_def)
  have h2: "\<not> has_entry (js ''t'') (js ''v1=abc123,v0=t'')"
    by (simp add: has_entry_def js_def trim_def isWhiteSpace_def)
  from h1 have "verifyStripeWebhookRaw ?env (js ''t=1700000000'') (js ''{}'') = Inr False"
    using verifyStripeWebhookRaw_fail_closed [OF sec] by blast
  moreover from h2 have "verifyStripeWebhookRaw ?env (js ''v1=abc123,v0=t'') (js ''{}'') = Inr False"
    using verifyStripeWebhookRaw_fail_closed [OF sec] by blast
  ultimately show ?thesis using h1 h2 by blast
qed

section \<open>The halves of a token\<close>

lemma split_hd: "hd (split sep s) = takeWhile (\<lambda>c. c \<noteq> sep) s"
  by (induction s) (auto split: list.splits simp: split_not_Nil)

lemma split_tl:
  "tl (split sep s) = (if sep \<in> set s then split sep (drop 1 (dropWhile (\<lambda>c. c \<noteq> sep) s)) else [])"
  by (induction s) (auto split: list.splits simp: split_not_Nil)

lemma element_0_split: "element (split sep s) 0 = Some (takeWhile (\<lambda>c. c \<noteq> sep) s)"
  using split_hd [of sep s] split_not_Nil [of sep s]
  by (cases "split sep s") (auto simp: element_def)

lemma element_1_split:
  "element (split sep s) (Suc 0) =
     (if sep \<in> set s
      then Some (takeWhile (\<lambda>c. c \<noteq> sep) (drop 1 (dropWhile (\<lambda>c. c \<noteq> sep) s)))
      else None)"
proof (cases "split sep s")
  case Nil
  then show ?thesis using split_not_Nil by blast
next
  case (Cons a rest)
  then have rest: "rest = tl (split sep s)" by simp
  show ?thesis
  proof (cases "sep \<in> set s")
    case True
    then have "rest = split sep (drop 1 (dropWhile (\<lambda>c. c \<noteq> sep) s))"
      using rest by (simp add: split_tl)
    then have "rest \<noteq> []" "hd rest = takeWhile (\<lambda>c. c \<noteq> sep) (drop 1 (dropWhile (\<lambda>c. c \<noteq> sep) s))"
      by (simp_all add: split_not_Nil split_hd)
    with True Cons show ?thesis by (cases rest) (auto simp: element_def)
  next
    case False
    then have "rest = []" using rest by (simp add: split_tl)
    with False Cons show ?thesis by (simp add: element_def)
  qed
qed

lemma token_segments:
  "element (split 0x2E token) 0 = Some (payload_half token)"
  "element (split 0x2E token) (Suc 0) = (if 0x2E \<in> set token then Some (signature_half token) else None)"
  by (simp_all add: element_0_split element_1_split payload_half_def signature_half_def)

text \<open>The verifier, with the two halves named.\<close>

lemma verifyReviewToken_unfold:
  "verifyReviewToken env token order_id now =
     (if \<not> truthy (REVIEW_LINK_SECRET env) then Inr False
      else if \<not> two_part token then Inr False
      else if hmacHex (the (REVIEW_LINK_SECRET env)) (payload_half token) \<noteq> signature_half token
        then Inr False
      else
        (case token_payload token of
           Inl e \<Rightarrow> Inr False
         | Inr payload \<Rightarrow>
             if \<not> ToBoolean payload then Inr False
             else
               (case ToString (or_else (Get payload (js ''order_id'')) (JStr [])) of
                  Inl e \<Rightarrow> Inl e
                | Inr embedded \<Rightarrow>
                    if embedded \<noteq> order_id then Inr False
                    else
                      (case ToNumber (or_else (Get payload (js ''exp'')) (JNum (Finite 0))) of
                         Inl e \<Rightarrow> Inl e
                       | Inr exp' \<Rightarrow>
                           if \<not> isFinite exp' \<or> now_after now exp' then Inr False
                           else Inr True))))"
  by (simp add: verifyReviewToken_def Let_def token_segments two_part_def truthy_def
      token_payload_def timingSafeEqualHex_iff)

section \<open>Integers are doubles\<close>

lemma bit_length_bounds: "0 < n \<Longrightarrow> 2 ^ (bit_length n - 1) \<le> n \<and> n < 2 ^ bit_length n"
proof (induction n rule: bit_length.induct)
  case (1 n)
  show ?case
  proof (cases "n div 2 = 0")
    case True
    with "1.prems" have "n = 1" by auto
    then show ?thesis by (simp add: bit_length.simps)
  next
    case False
    then have pos: "0 < n div 2" by simp
    from "1.IH" [OF _ pos] "1.prems"
    have ih: "2 ^ (bit_length (n div 2) - 1) \<le> n div 2" "n div 2 < 2 ^ bit_length (n div 2)"
      by auto
    have bl: "bit_length n = Suc (bit_length (n div 2))"
      using "1.prems" by (subst bit_length.simps) simp
    have blpos: "0 < bit_length (n div 2)"
      using pos by (subst bit_length.simps) simp
    then obtain k where k: "bit_length (n div 2) = Suc k" by (cases "bit_length (n div 2)") auto
    from ih k have "2 ^ k \<le> n div 2" "n div 2 < 2 ^ Suc k" by auto
    then have "2 ^ Suc k \<le> n" "n < 2 ^ Suc (Suc k)" by auto
    then show ?thesis by (simp add: bl k)
  qed
qed

lemma bit_length_1: "bit_length (Suc 0) = Suc 0"
  by (simp add: bit_length.simps)

lemma round_half_even_of_int: "round_half_even (of_int m) = m"
  by (simp add: round_half_even_def)

lemma roundToDouble_of_nat:
  assumes "0 < n" and "n \<le> 2 ^ 53"
  shows "roundToDouble (of_nat n) = Finite (of_nat n)"
proof -
  define e0 where "e0 = bit_length n - 1"
  from bit_length_bounds [OF assms(1)]
  have lo: "2 ^ e0 \<le> n" and hi: "n < 2 ^ bit_length n" by (simp_all add: e0_def)
  have blpos: "0 < bit_length n" using assms(1) by (subst bit_length.simps) simp
  have e0_le: "e0 \<le> 53"
  proof (rule ccontr)
    assume "\<not> e0 \<le> 53"
    then have "54 \<le> e0" by simp
    then have "(2::nat) ^ 54 \<le> 2 ^ e0" by (intro power_increasing) simp_all
    with lo assms(2) show False by simp
  qed
  have q: "quotient_of (of_nat n :: rat) = (int n, 1)"
    using quotient_of_int [of "int n"] by simp
  have lo_rat: "(2::rat) ^ e0 \<le> of_nat n"
    using lo by (metis of_nat_le_iff of_nat_numeral of_nat_power)
  have fl: "floor_log2 (of_nat n) = int e0"
    using blpos lo_rat
    by (simp add: floor_log2_def q bit_length_1 pow2_def e0_def of_nat_diff Let_def nat_diff_distrib)
  have e: "max (floor_log2 (of_nat n)) (- 1022) = int e0" by (simp add: fl)
  have v: "of_int (round_half_even (of_nat n / pow2 (int e0 - 52))) * pow2 (int e0 - 52) = (of_nat n :: rat)"
  proof (cases "e0 \<le> 52")
    case True
    then obtain k where k: "52 = e0 + k" using le_Suc_ex by blast
    have p: "pow2 (int e0 - 52) = 1 / 2 ^ k"
    proof (cases "k = 0")
      case True
      with k show ?thesis by (simp add: pow2_def)
    next
      case False
      with k have "int e0 - 52 = - int k" "\<not> 0 \<le> int e0 - 52" by simp_all
      then show ?thesis by (simp add: pow2_def)
    qed
    have "of_nat n / (1 / 2 ^ k) = (of_int (int (n * 2 ^ k)) :: rat)" by simp
    then have "round_half_even (of_nat n / pow2 (int e0 - 52)) = int (n * 2 ^ k)"
      unfolding p by (simp only: round_half_even_of_int)
    then show ?thesis by (simp add: p)
  next
    case False
    with e0_le have e53: "e0 = 53" by simp
    with lo assms(2) have n: "n = 2 ^ 53" by simp
    have p: "pow2 (int e0 - 52) = 2" by (simp add: e53 pow2_def)
    have "of_nat n / 2 = (of_int (2 ^ 52) :: rat)" by (simp add: n)
    then have "round_half_even (of_nat n / pow2 (int e0 - 52)) = 2 ^ 52"
      unfolding p by (simp only: round_half_even_of_int)
    then show ?thesis by (simp add: p n)
  qed
  have small: "\<not> pow2 1024 \<le> (of_nat n :: rat)"
  proof -
    have "(of_nat n :: rat) \<le> 2 ^ 53" using assms(2)
      by (metis of_nat_le_iff of_nat_numeral of_nat_power)
    also have "\<dots> < 2 ^ 1024" by (simp add: power_strict_increasing)
    finally show ?thesis by (simp add: pow2_def)
  qed
  have npos: "(0::rat) < of_nat n" "(of_nat n :: rat) \<noteq> 0" using assms(1) by simp_all
  show ?thesis
    unfolding roundToDouble_def Let_def
    using npos small by (simp add: e v)
qed

lemma roundToDouble_of_int:
  assumes "\<bar>i\<bar> \<le> 2 ^ 53"
  shows "roundToDouble (of_int i) = Finite (of_int i)"
proof (cases "i = 0")
  case True
  then show ?thesis by (simp add: roundToDouble_def)
next
  case False
  define n where "n = nat \<bar>i\<bar>"
  have n: "0 < n" "n \<le> 2 ^ 53" using False assms by (simp_all add: n_def nat_le_iff)
  have abs: "\<bar>of_int i :: rat\<bar> = of_nat n" by (simp add: n_def)
  have r: "roundToDouble (of_nat n) = Finite (of_nat n)" by (rule roundToDouble_of_nat [OF n])
  have npos: "(0::rat) < of_nat n" using n(1) by simp
  from r npos have core:
    "\<not> pow2 1024 \<le> of_int (round_half_even (of_nat n / pow2 (max (floor_log2 (of_nat n)) (- 1022) - 52)))
          * pow2 (max (floor_log2 (of_nat n)) (- 1022) - 52)"
    "of_int (round_half_even (of_nat n / pow2 (max (floor_log2 (of_nat n)) (- 1022) - 52)))
          * pow2 (max (floor_log2 (of_nat n)) (- 1022) - 52) = (of_nat n :: rat)"
    by (auto simp: roundToDouble_def Let_def split: if_splits)
  show ?thesis
  proof (cases "0 < i")
    case True
    then have "(of_int i :: rat) = of_nat n" by (simp add: n_def)
    with r show ?thesis by simp
  next
    case neg: False
    with False have "i < 0" by simp
    then have eq: "(of_int i :: rat) = - of_nat n" by (simp add: n_def)
    have "roundToDouble (- of_nat n) = Finite (- of_nat n)"
      unfolding roundToDouble_def Let_def
      using npos core by simp
    with eq show ?thesis by simp
  qed
qed
section \<open>JSON strings are read back\<close>

lemma hex_value_hex_digit:
  assumes "d < 16"
  shows "hex_value (hex_digit d) = Some d"
  using less_16_cases [OF assms]
  by (elim insertE emptyE) (simp_all add: hex_digit_def hex_value_def)

lemma parse_hex_4:
  assumes "d3 < 16" "d2 < 16" "d1 < 16" "d0 < 16"
  shows "parse_hex [hex_digit d3, hex_digit d2, hex_digit d1, hex_digit d0]
         = Some (4096 * d3 + 256 * d2 + 16 * d1 + d0)"
  using assms by (simp add: parse_hex_def hex_value_hex_digit)

lemma unat_16_less: "unat (c :: code_unit) < 65536"
  using unsigned_less [of c, where 'a = nat] by simp

lemma hex4_value:
  "4096 * (n div 4096) + 256 * (n div 256 mod 16) + 16 * (n div 16 mod 16) + n mod 16 = (n::nat)"
proof -
  have a: "n div 256 = n div 16 div 16" "n div 4096 = n div 16 div 16 div 16"
    by (simp_all add: div_mult2_eq [symmetric])
  show ?thesis
    unfolding a
    using div_mult_mod_eq [of n 16] div_mult_mod_eq [of "n div 16" 16]
      div_mult_mod_eq [of "n div 16 div 16" 16]
    by linarith
qed

lemma parse_string_chars_UnicodeEscape:
  "parse_string_chars (UnicodeEscape c @ X) =
     (case parse_string_chars X of None \<Rightarrow> None | Some (r, rest) \<Rightarrow> Some (c # r, rest))"
proof -
  define es where "es = [hex_digit (unat c div 4096), hex_digit (unat c div 256 mod 16),
      hex_digit (unat c div 16 mod 16), hex_digit (unat c mod 16)] @ X"
  have lt: "unat c div 4096 < 16" "unat c div 256 mod 16 < 16" "unat c div 16 mod 16 < 16"
    "unat c mod 16 < 16"
    using unat_16_less [of c] by simp_all
  have 1: "UnicodeEscape c @ X = 0x5C # 0x75 # es" by (simp add: UnicodeEscape_def es_def)
  have 2: "\<not> length es < 4" by (simp add: es_def)
  have 3: "drop 4 es = X" by (simp add: es_def)
  have 4: "parse_hex (take 4 es) = Some (unat c)"
    using parse_hex_4 [OF lt] by (simp add: es_def hex4_value)
  show ?thesis
    unfolding 1 by (simp add: 2 3 4 split: option.split)
qed

lemma parse_string_chars_literal:
  assumes "c \<noteq> 0x22" "c \<noteq> 0x5C" "\<not> c < 0x20"
  shows "parse_string_chars (c # X) =
     (case parse_string_chars X of None \<Rightarrow> None | Some (r, rest) \<Rightarrow> Some (c # r, rest))"
  using assms by simp

lemma surrogate_literal:
  assumes "is_high_surrogate c \<or> is_low_surrogate c"
  shows "c \<noteq> 0x22" "c \<noteq> 0x5C" "\<not> c < 0x20"
proof -
  from assms have "0xD800 \<le> unat c"
    by (auto simp: is_high_surrogate_def is_low_surrogate_def word_le_nat_alt)
  then show "c \<noteq> 0x22" "c \<noteq> 0x5C" "\<not> c < 0x20"
    by (auto simp: word_less_nat_alt)
qed

lemma parse_string_chars_surrogate:
  assumes "is_high_surrogate c \<or> is_low_surrogate c"
  shows "parse_string_chars (c # X) =
     (case parse_string_chars X of None \<Rightarrow> None | Some (r, rest) \<Rightarrow> Some (c # r, rest))"
  by (rule parse_string_chars_literal) (rule surrogate_literal [OF assms])+

lemma parse_string_chars_quote_unit:
  "parse_string_chars (quote_unit c @ X) =
     (case parse_string_chars X of None \<Rightarrow> None | Some (r, rest) \<Rightarrow> Some (c # r, rest))"
proof -
  consider (esc) "c \<in> {0x08, 0x09, 0x0A, 0x0C, 0x0D, 0x22, 0x5C}"
    | (uni) "c \<notin> {0x08, 0x09, 0x0A, 0x0C, 0x0D, 0x22, 0x5C}"
            "c < 0x20 \<or> is_high_surrogate c \<or> is_low_surrogate c"
    | (lit) "c \<notin> {0x08, 0x09, 0x0A, 0x0C, 0x0D, 0x22, 0x5C}"
            "\<not> (c < 0x20 \<or> is_high_surrogate c \<or> is_low_surrogate c)"
    by blast
  then show ?thesis
  proof cases
    case esc
    then show ?thesis
      by (auto simp: quote_unit_def simple_escape_def split: option.split)
  next
    case uni
    then have "quote_unit c = UnicodeEscape c" by (simp add: quote_unit_def)
    then show ?thesis by (simp add: parse_string_chars_UnicodeEscape)
  next
    case lit
    then have "quote_unit c = [c]" by (simp add: quote_unit_def)
    moreover from lit have "c \<noteq> 0x22" "c \<noteq> 0x5C" "\<not> c < 0x20" by simp_all
    ultimately show ?thesis using parse_string_chars_literal [of c X] by simp
  qed
qed

lemma parse_string_chars_quote_units:
  "parse_string_chars (quote_units s @ 0x22 # rest) = Some (s, rest)"
proof (induction s rule: quote_units.induct)
  case 1
  then show ?case by simp
next
  case (2 c)
  have "parse_string_chars (quote_unit c @ 0x22 # rest) = Some ([c], rest)"
    by (subst parse_string_chars_quote_unit) simp
  then show ?case by simp
next
  case (3 c d cs)
  show ?case
  proof (cases "is_high_surrogate c \<and> is_low_surrogate d")
    case True
    then have ih: "parse_string_chars (quote_units cs @ 0x22 # rest) = Some (cs, rest)"
      using 3 by simp
    have "parse_string_chars (c # d # quote_units cs @ 0x22 # rest) = Some (c # d # cs, rest)"
      using True
      by (subst parse_string_chars_surrogate, blast, subst parse_string_chars_surrogate, blast)
         (simp only: ih option.case prod.case)
    moreover have "quote_units (c # d # cs) = c # d # quote_units cs" using True by simp
    ultimately show ?thesis by (simp only: append_Cons)
  next
    case False
    then have ih: "parse_string_chars (quote_units (d # cs) @ 0x22 # rest) = Some (d # cs, rest)"
      using 3 by simp
    have "parse_string_chars (quote_unit c @ quote_units (d # cs) @ 0x22 # rest)
          = Some (c # d # cs, rest)"
      by (subst parse_string_chars_quote_unit) (simp only: ih option.case prod.case)
    moreover have "quote_units (c # d # cs) = quote_unit c @ quote_units (d # cs)"
      using False by auto
    ultimately show ?thesis by (simp only: append_assoc)
  qed
qed

section \<open>Well-formed strings\<close>

lemma is_surrogate_unat: "is_surrogate (unat c) \<longleftrightarrow> is_high_surrogate c \<or> is_low_surrogate c"
  by (auto simp: is_surrogate_def is_high_surrogate_def is_low_surrogate_def word_le_nat_alt)

lemma well_formed_Nil: "well_formed []"
  by (simp add: well_formed_def)

lemma well_formed_pair:
  "is_high_surrogate c \<Longrightarrow> is_low_surrogate d \<Longrightarrow> well_formed (c # d # cs) \<longleftrightarrow> well_formed cs"
  by (simp add: well_formed_def is_surrogate_def)

lemma well_formed_Cons:
  "\<not> is_high_surrogate c \<Longrightarrow> well_formed (c # cs) \<longleftrightarrow> \<not> is_low_surrogate c \<and> well_formed cs"
  by (cases cs) (simp_all add: well_formed_def is_surrogate_unat)

lemma well_formed_single: "well_formed [c] \<longleftrightarrow> \<not> is_high_surrogate c \<and> \<not> is_low_surrogate c"
  by (simp add: well_formed_def is_surrogate_unat)

lemma well_formed_lone_high:
  "is_high_surrogate c \<Longrightarrow> \<not> (is_high_surrogate c \<and> is_low_surrogate d) \<Longrightarrow> \<not> well_formed (c # d # cs)"
  by (simp add: well_formed_def is_surrogate_unat)

lemma code_points_append:
  "well_formed xs \<Longrightarrow> code_points (xs @ ys) = code_points xs @ code_points ys"
proof (induction xs rule: code_points.induct)
  case 1
  then show ?case by simp
next
  case (2 c)
  then have "\<not> is_high_surrogate c" by (simp add: well_formed_single)
  then show ?case by (cases ys) simp_all
next
  case (3 c d cs)
  show ?case
  proof (cases "is_high_surrogate c \<and> is_low_surrogate d")
    case True
    with 3 show ?thesis by (simp add: well_formed_pair)
  next
    case False
    have nh: "\<not> is_high_surrogate c"
      using False "3.prems" well_formed_lone_high by blast
    with "3.prems" have "well_formed (d # cs)" by (simp add: well_formed_Cons)
    with 3 False show ?thesis by auto
  qed
qed

lemma well_formed_append: "well_formed xs \<Longrightarrow> well_formed ys \<Longrightarrow> well_formed (xs @ ys)"
  by (auto simp: well_formed_def code_points_append)

lemma code_points_no_surrogates:
  "\<forall>c \<in> set s. \<not> is_high_surrogate c \<and> \<not> is_low_surrogate c \<Longrightarrow> code_points s = map unat s"
  by (induction s rule: code_points.induct) simp_all

lemma well_formed_no_surrogates:
  "\<forall>c \<in> set s. \<not> is_high_surrogate c \<and> \<not> is_low_surrogate c \<Longrightarrow> well_formed s"
  by (auto simp: well_formed_def code_points_no_surrogates is_surrogate_unat)

lemma ascii_not_surrogate: "is_ascii c \<Longrightarrow> \<not> is_high_surrogate c \<and> \<not> is_low_surrogate c"
  by (auto simp: is_ascii_def is_high_surrogate_def is_low_surrogate_def word_le_nat_alt
      word_less_nat_alt)

lemma well_formed_ascii: "\<forall>c \<in> set s. is_ascii c \<Longrightarrow> well_formed s"
  using ascii_not_surrogate by (intro well_formed_no_surrogates) blast

lemma hex_digit_ascii: "d < 16 \<Longrightarrow> is_ascii (hex_digit d)"
  using hex_digit_lower_hex [of d]
  by (auto simp: is_lower_hex_def is_ascii_def word_le_nat_alt word_less_nat_alt)

lemma UnicodeEscape_ascii: "x \<in> set (UnicodeEscape c) \<Longrightarrow> is_ascii x"
proof -
  have lt: "unat c div 4096 < 16" "unat c div 256 mod 16 < 16" "unat c div 16 mod 16 < 16"
    "unat c mod 16 < 16"
    using unat_16_less [of c] by simp_all
  assume "x \<in> set (UnicodeEscape c)"
  then show ?thesis
    using lt [THEN hex_digit_ascii]
    by (auto simp: UnicodeEscape_def is_ascii_def)
qed

lemma well_formed_quote_unit: "well_formed (quote_unit c)"
proof (cases "quote_unit c = [c]")
  case True
  show ?thesis
  proof (cases "is_high_surrogate c \<or> is_low_surrogate c")
    case s: True
    then have "quote_unit c = UnicodeEscape c \<or> quote_unit c \<noteq> [c]"
      using surrogate_literal [of c]
      by (simp add: quote_unit_def)
    with True have "quote_unit c = UnicodeEscape c" by simp
    then show ?thesis using UnicodeEscape_ascii well_formed_ascii by simp
  next
    case False
    with True show ?thesis by (simp add: well_formed_single)
  qed
next
  case False
  then have "\<forall>x \<in> set (quote_unit c). is_ascii x"
    using UnicodeEscape_ascii [of _ c]
    by (auto simp: quote_unit_def is_ascii_def split: if_splits)
  then show ?thesis by (rule well_formed_ascii)
qed

lemma well_formed_quote_units: "well_formed (quote_units s)"
proof (induction s rule: quote_units.induct)
  case 1
  then show ?case by (simp add: well_formed_Nil)
next
  case (2 c)
  then show ?case by (simp add: well_formed_quote_unit)
next
  case (3 c d cs)
  then show ?case
    by (cases "is_high_surrogate c \<and> is_low_surrogate d")
       (auto simp: well_formed_pair well_formed_append well_formed_quote_unit)
qed

section \<open>Integers as decimal numerals\<close>

lemma unat_of_nat_16: "n < 65536 \<Longrightarrow> unat (of_nat n :: code_unit) = n"
  by (simp add: unat_of_nat)

lemma less_10_cases:
  "k < 10 \<Longrightarrow> k \<in> {0, 1, 2, 3, 4, 5, 6, 7, 8, 9 :: nat}"
  by simp arith

lemma digit_char:
  assumes "k < 10"
  shows "is_digit (digit_char k)" "unat (digit_char k) - 0x30 = k"
    "digit_char k = 0x30 \<longleftrightarrow> k = 0"
  using less_10_cases [OF assms]
  by (elim insertE emptyE; simp add: digit_char_def is_digit_def)+

lemma decimal_digits: "c \<in> set (decimal n) \<Longrightarrow> is_digit c"
proof (induction n rule: decimal.induct)
  case (1 n)
  show ?case
  proof (cases "n < 10")
    case True
    with "1.prems" show ?thesis
      by (subst (asm) decimal.simps) (simp add: digit_char)
  next
    case False
    with "1.prems" have "c \<in> set (decimal (n div 10)) \<or> c = digit_char (n mod 10)"
      by (subst (asm) decimal.simps) auto
    then show ?thesis
      using "1.IH" False digit_char(1) [of "n mod 10"] by auto
  qed
qed

lemma decimal_not_Nil: "decimal n \<noteq> []"
  by (subst decimal.simps) simp

lemma digits_value_snoc: "digits_value (ds @ [c]) = 10 * digits_value ds + (unat c - 0x30)"
  by (simp add: digits_value_def)

lemma digits_value_decimal: "digits_value (decimal n) = n"
proof (induction n rule: decimal.induct)
  case (1 n)
  show ?case
  proof (cases "n < 10")
    case True
    then show ?thesis
      by (subst decimal.simps) (simp add: digits_value_def digit_char)
  next
    case False
    then have "digits_value (decimal n) = 10 * digits_value (decimal (n div 10)) + n mod 10"
      by (subst decimal.simps) (simp add: digits_value_snoc digit_char)
    with False "1.IH" show ?thesis by simp
  qed
qed

lemma hd_decimal: "hd (decimal n) = 0x30 \<longleftrightarrow> n = 0"
proof (induction n rule: decimal.induct)
  case (1 n)
  show ?case
  proof (cases "n < 10")
    case True
    then show ?thesis
      by (subst decimal.simps) (simp add: digit_char)
  next
    case False
    then have "hd (decimal n) = hd (decimal (n div 10))"
      by (subst decimal.simps) (simp add: decimal_not_Nil)
    with False "1.IH" show ?thesis by simp
  qed
qed

lemma decimal_0: "decimal 0 = [0x30]"
  by (subst decimal.simps) (simp add: digit_char_def)

lemma is_digit_not_special:
  assumes "is_digit c"
  shows "c \<noteq> 0x2D" "c \<noteq> 0x22" "c \<noteq> 0x5B" "c \<noteq> 0x7B" "c \<noteq> 0x6E" "c \<noteq> 0x74" "c \<noteq> 0x66"
    "is_ascii c" "c \<noteq> 0x2E"
  using assms by (auto simp: is_digit_def is_ascii_def word_le_nat_alt word_less_nat_alt)

lemma takeWhile_decimal:
  assumes "\<not> is_digit c"
  shows "takeWhile is_digit (decimal n @ c # r) = decimal n"
    "dropWhile is_digit (decimal n @ c # r) = c # r"
  using assms decimal_digits by (simp_all add: takeWhile_append2 dropWhile_append2)

lemma exponent_part_none:
  assumes "c \<noteq> 0x65" "c \<noteq> 0x45"
  shows "exponent_part (c # r) = Some (0, c # r)"
  using assms by (simp add: exponent_part_def)

lemma parse_number_unsigned:
  assumes "s \<noteq> []" "hd s \<noteq> 0x2D" "hd s \<noteq> 0x30" "takeWhile is_digit s = ds" "ds \<noteq> []"
    and "drop (length ds) s = c # r" "c \<noteq> 0x2E" "c \<noteq> 0x65" "c \<noteq> 0x45"
  shows "parse_number s = Some (roundToDouble (of_nat (digits_value ds)), c # r)"
  unfolding parse_number_def Let_def
  using assms by (simp add: exponent_part_none pow10_def)

lemma parse_number_negative:
  assumes "s \<noteq> []" "hd s \<noteq> 0x30" "takeWhile is_digit s = ds" "ds \<noteq> []"
    and "drop (length ds) s = c # r" "c \<noteq> 0x2E" "c \<noteq> 0x65" "c \<noteq> 0x45"
  shows "parse_number (0x2D # s) = Some (roundToDouble (- of_nat (digits_value ds)), c # r)"
  unfolding parse_number_def Let_def
  using assms by (simp add: exponent_part_none pow10_def)

lemma parse_number_pos:
  assumes "\<not> is_digit c" "c \<noteq> 0x2E" "c \<noteq> 0x65" "c \<noteq> 0x45" and "0 < n"
  shows "parse_number (decimal n @ c # r) = Some (roundToDouble (of_nat n), c # r)"
    "parse_number (0x2D # decimal n @ c # r) = Some (roundToDouble (- of_nat n), c # r)"
proof -
  let ?s = "decimal n @ c # r"
  have hd_s: "hd ?s = hd (decimal n)" by (simp add: decimal_not_Nil)
  have dig: "is_digit (hd (decimal n))"
    using decimal_digits [of "hd (decimal n)" n] decimal_not_Nil [of n] by simp
  have h1: "hd ?s \<noteq> 0x2D" using is_digit_not_special(1) [OF dig] hd_s by simp
  have h2: "hd ?s \<noteq> 0x30" using hd_decimal [of n] hd_s assms(5) by simp
  have tw: "takeWhile is_digit ?s = decimal n" by (rule takeWhile_decimal(1) [OF assms(1)])
  have ne: "?s \<noteq> []" by simp
  have dr: "drop (length (decimal n)) ?s = c # r" by simp
  show "parse_number ?s = Some (roundToDouble (of_nat n), c # r)"
    using parse_number_unsigned [OF ne h1 h2 tw decimal_not_Nil dr assms(2,3,4)]
    by (simp only: digits_value_decimal)
  show "parse_number (0x2D # ?s) = Some (roundToDouble (- of_nat n), c # r)"
    using parse_number_negative [OF ne h2 tw decimal_not_Nil dr assms(2,3,4)]
    by (simp only: digits_value_decimal)
qed

lemma parse_number_zero:
  assumes "\<not> is_digit c" "c \<noteq> 0x2E" "c \<noteq> 0x65" "c \<noteq> 0x45"
  shows "parse_number (decimal 0 @ c # r) = Some (roundToDouble 0, c # r)"
  unfolding parse_number_def Let_def decimal_0
  using assms by (simp add: exponent_part_none digits_value_def pow10_def)

lemma parse_number_int:
  assumes "\<not> is_digit c" "c \<noteq> 0x2E" "c \<noteq> 0x65" "c \<noteq> 0x45"
  shows "parse_number (decimal_int i @ c # r) = Some (roundToDouble (of_int i), c # r)"
proof -
  consider (neg) "i < 0" | (zero) "i = 0" | (pos) "0 < i" by linarith
  then show ?thesis
  proof cases
    case neg
    then have "decimal_int i @ c # r = 0x2D # decimal (nat (- i)) @ c # r"
      "(of_int i :: rat) = - of_nat (nat (- i))" "0 < nat (- i)"
      by (simp_all add: decimal_int_def)
    then show ?thesis using parse_number_pos(2) [OF assms, of "nat (- i)" r] by simp
  next
    case zero
    then show ?thesis using parse_number_zero [OF assms, of r] by (simp add: decimal_int_def)
  next
    case pos
    then have "decimal_int i = decimal (nat i)" "(of_int i :: rat) = of_nat (nat i)" "0 < nat i"
      by (simp_all add: decimal_int_def)
    then show ?thesis using parse_number_pos(1) [OF assms, of "nat i" r] by simp
  qed
qed

lemma NumberToString_int:
  assumes "\<bar>i\<bar> \<le> 2 ^ 53"
  shows "NumberToString (Finite (of_int i)) = decimal_int i"
proof -
  have le: "\<bar>of_int i :: rat\<bar> \<le> 2 ^ 53"
  proof -
    have "\<bar>of_int i :: rat\<bar> = of_int \<bar>i\<bar>" by simp
    also have "\<dots> \<le> of_int (2 ^ 53)" using assms by (simp only: of_int_le_iff)
    finally show ?thesis by simp
  qed
  have fl: "of_int \<lfloor>\<bar>of_int i :: rat\<bar>\<rfloor> = \<bar>of_int i :: rat\<bar>"
    by (metis floor_of_int of_int_abs)
  have n: "nat \<lfloor>\<bar>of_int i :: rat\<bar>\<rfloor> = nat \<bar>i\<bar>"
    by (metis floor_of_int of_int_abs)
  show ?thesis
  proof (cases "i = 0")
    case True
    then show ?thesis by (simp add: NumberToString_def decimal_int_def decimal_0 js_def)
  next
    case False
    then show ?thesis
      using le fl n
      by (simp add: NumberToString_def decimal_int_def)
  qed
qed

section \<open>The payload is read back\<close>

lemma skip_ws_Cons: "\<not> is_json_ws c \<Longrightarrow> skip_ws (c # r) = c # r"
  by (simp add: skip_ws_def)

lemma skip_ws_Nil: "skip_ws [] = []"
  by (simp add: skip_ws_def)

lemma not_json_ws:
  "\<not> is_json_ws 0x22" "\<not> is_json_ws 0x3A" "\<not> is_json_ws 0x2C" "\<not> is_json_ws 0x7D"
  "\<not> is_json_ws 0x7B" "\<not> is_json_ws 0x2D"
  by (simp_all add: is_json_ws_def)

lemma is_digit_not_ws: "is_digit c \<Longrightarrow> \<not> is_json_ws c"
  by (auto simp: is_digit_def is_json_ws_def)

lemma parse_value_string:
  "parse_value (Suc f) (0x22 # quote_units s @ 0x22 # rest) = Some (JStr s, rest)"
  by (simp add: parse_string_chars_quote_units)

lemma parse_value_number:
  assumes "is_digit x \<or> x = 0x2D"
  shows "parse_value (Suc f) (x # xs) =
     (case parse_number (x # xs) of None \<Rightarrow> None | Some (v, rest) \<Rightarrow> Some (JNum v, rest))"
proof -
  have "x \<noteq> 0x22" "x \<noteq> 0x5B" "x \<noteq> 0x7B" "x \<noteq> 0x6E" "x \<noteq> 0x74" "x \<noteq> 0x66"
    using assms is_digit_not_special [of x] by auto
  then show ?thesis
    by (simp add: starts_with_def js_def)
qed

lemma decimal_int_Cons:
  "\<exists>x xs. decimal_int i = x # xs \<and> (is_digit x \<or> x = 0x2D)"
proof (cases "i < 0")
  case True
  then show ?thesis by (simp add: decimal_int_def)
next
  case False
  obtain x xs where d: "decimal (nat i) = x # xs"
    using decimal_not_Nil [of "nat i"] by (cases "decimal (nat i)") auto
  then have "is_digit x" using decimal_digits [of x "nat i"] by simp
  with d False show ?thesis by (simp add: decimal_int_def)
qed

lemma not_digit_close: "\<not> is_digit 0x7D"
  by (simp add: is_digit_def)

lemma parse_value_decimal_int:
  "parse_value (Suc f) (decimal_int i @ 0x7D # r) = Some (JNum (roundToDouble (of_int i)), 0x7D # r)"
proof -
  obtain x xs where d: "decimal_int i = x # xs" "is_digit x \<or> x = 0x2D"
    using decimal_int_Cons by blast
  have pn: "parse_number (decimal_int i @ 0x7D # r) = Some (roundToDouble (of_int i), 0x7D # r)"
    by (rule parse_number_int) (simp_all add: not_digit_close)
  have "parse_value (Suc f) (x # (xs @ 0x7D # r)) =
     (case parse_number (x # (xs @ 0x7D # r)) of None \<Rightarrow> None | Some (v, rest) \<Rightarrow> Some (JNum v, rest))"
    by (rule parse_value_number [OF d(2)])
  then show ?thesis using pn d(1) by simp
qed

lemma skip_ws_decimal_int: "skip_ws (decimal_int i @ r) = decimal_int i @ r"
proof -
  obtain x xs where d: "decimal_int i = x # xs" "is_digit x \<or> x = 0x2D"
    using decimal_int_Cons by blast
  then have "\<not> is_json_ws x" using is_digit_not_ws not_json_ws(6) by blast
  with d(1) show ?thesis by (simp add: skip_ws_def)
qed

lemma JSON_stringify_payload_unfold:
  assumes "\<bar>n\<bar> \<le> 2 ^ 53"
  shows "JSON_stringify_payload oid em (Finite (of_int n)) =
     0x7B # 0x22 # quote_units (js ''order_id'') @ 0x22 # 0x3A # 0x22 # quote_units oid @ 0x22 #
     0x2C # 0x22 # quote_units (js ''email'') @ 0x22 # 0x3A # 0x22 # quote_units em @ 0x22 #
     0x2C # 0x22 # quote_units (js ''exp'') @ 0x22 # 0x3A # decimal_int n @ [0x7D]"
  by (simp add: JSON_stringify_payload_def QuoteJSONString_def NumberToString_int [OF assms]
      isFinite_def)

lemma parse_members_payload:
  assumes "\<bar>n\<bar> \<le> 2 ^ 53"
  shows "parse_members (Suc (Suc (Suc (Suc f))))
     (0x22 # quote_units (js ''order_id'') @ 0x22 # 0x3A # 0x22 # quote_units oid @ 0x22 #
      0x2C # 0x22 # quote_units (js ''email'') @ 0x22 # 0x3A # 0x22 # quote_units em @ 0x22 #
      0x2C # 0x22 # quote_units (js ''exp'') @ 0x22 # 0x3A # decimal_int n @ [0x7D])
   = Some ([(js ''order_id'', JStr oid), (js ''email'', JStr em),
            (js ''exp'', JNum (Finite (of_int n)))], [])"
proof -
  have m3: "parse_members (Suc (Suc f))
      (0x22 # quote_units (js ''exp'') @ 0x22 # 0x3A # decimal_int n @ [0x7D])
    = Some ([(js ''exp'', JNum (Finite (of_int n)))], [])"
    by (subst parse_members.simps)
       (simp add: parse_string_chars_quote_units skip_ws_Cons not_json_ws skip_ws_decimal_int
        parse_value_decimal_int roundToDouble_of_int [OF assms]
        del: parse_value.simps parse_members.simps)
  have m2: "parse_members (Suc (Suc (Suc f)))
      (0x22 # quote_units (js ''email'') @ 0x22 # 0x3A # 0x22 # quote_units em @ 0x22 #
       0x2C # 0x22 # quote_units (js ''exp'') @ 0x22 # 0x3A # decimal_int n @ [0x7D])
    = Some ([(js ''email'', JStr em), (js ''exp'', JNum (Finite (of_int n)))], [])"
    by (subst parse_members.simps)
       (simp add: parse_string_chars_quote_units skip_ws_Cons not_json_ws parse_value_string m3
        del: parse_value.simps parse_members.simps)
  show ?thesis
    by (subst parse_members.simps)
       (simp add: parse_string_chars_quote_units skip_ws_Cons not_json_ws parse_value_string m2
        del: parse_value.simps parse_members.simps)
qed

lemma JSON_parse_payload:
  assumes "\<bar>n\<bar> \<le> 2 ^ 53"
  shows "JSON_parse (JSON_stringify_payload oid em (Finite (of_int n))) = Inr (payload_object oid em n)"
proof -
  let ?J = "JSON_stringify_payload oid em (Finite (of_int n))"
  let ?rest = "quote_units (js ''order_id'') @ 0x22 # 0x3A # 0x22 # quote_units oid @ 0x22 #
     0x2C # 0x22 # quote_units (js ''email'') @ 0x22 # 0x3A # 0x22 # quote_units em @ 0x22 #
     0x2C # 0x22 # quote_units (js ''exp'') @ 0x22 # 0x3A # decimal_int n @ [0x7D]"
  have J: "?J = 0x7B # 0x22 # ?rest" by (rule JSON_stringify_payload_unfold [OF assms])
  have f: "2 * length ?J + 2 = Suc (Suc (Suc (Suc (Suc (Suc (2 * length ?rest))))))"
    by (simp only: J length_Cons) simp
  have pv: "parse_value (Suc (Suc (Suc (Suc (Suc (Suc (2 * length ?rest)))))))
              (0x7B # 0x22 # ?rest)
        = Some (payload_object oid em n, [])"
    using parse_members_payload [OF assms, of "Suc (2 * length ?rest)" oid em]
    by (subst parse_value.simps)
       (simp add: skip_ws_Cons not_json_ws starts_with_def payload_object_def
        del: parse_members.simps parse_value.simps)
  show ?thesis
    unfolding JSON_parse_def f
    by (simp only: J skip_ws_Cons [OF not_json_ws(5)] pv) (simp add: skip_ws_Nil)
qed

section \<open>Percent-encoding gives the UTF-8 bytes\<close>

lemma HEX_DIGIT_props:
  assumes "d < 16"
  shows "hex_value (HEX_DIGIT d) = Some d" "HEX_DIGIT d \<noteq> 0x75" "HEX_DIGIT d \<noteq> 0x25"
  using less_16_cases [OF assms]
  by (elim insertE emptyE; simp add: HEX_DIGIT_def hex_value_def)+

lemma byte_nibbles: "b < 256 \<Longrightarrow> b div 16 < 16" "b mod 16 < (16::nat)"
  by simp_all

lemma parse_hex_percent:
  assumes "b < 256"
  shows "parse_hex [HEX_DIGIT (b div 16), HEX_DIGIT (b mod 16)] = Some b"
  using assms by (simp add: parse_hex_def HEX_DIGIT_props(1) byte_nibbles)

lemma hex_octet_percent:
  assumes "b < 256"
  shows "hex_octet (HEX_DIGIT (b div 16) # HEX_DIGIT (b mod 16) # rest) = Some b"
  using assms by (simp add: HEX_DIGIT_props(1) byte_nibbles)

lemma unescape_percent:
  assumes "b < 256"
  shows "unescape (percent b @ rest) = of_nat b # unescape rest"
proof -
  have nu: "HEX_DIGIT (b div 16) \<noteq> 0x75"
    using assms by (simp add: HEX_DIGIT_props(2) byte_nibbles)
  show ?thesis
    unfolding percent_def
    using nu parse_hex_percent [OF assms]
    by (simp del: unescape.simps add: unescape.simps(2) [of "0x25"])
qed

lemma unescape_percents:
  assumes "\<forall>b \<in> set bs. b < 256"
  shows "unescape (concat (map percent bs) @ rest) = map of_nat bs @ unescape rest"
  using assms by (induction bs) (simp_all add: unescape_percent del: unescape.simps)

lemma utf8_bytes_less:
  assumes "cp < 0x110000"
  shows "\<forall>b \<in> set (utf8_bytes cp). b < 256"
  using assms by (auto simp: utf8_bytes_def)

lemma code_points_less: "cp \<in> set (code_points s) \<Longrightarrow> cp < 0x110000"
proof (induction s rule: code_points.induct)
  case 1
  then show ?case by simp
next
  case (2 c)
  then show ?case using unat_16_less [of c] by simp
next
  case (3 c d cs)
  have "unat c < 65536" "unat d < 65536" by (rule unat_16_less)+
  moreover have "is_high_surrogate c \<Longrightarrow> unat c \<le> 0xDBFF"
    by (simp add: is_high_surrogate_def word_le_nat_alt)
  moreover have "is_low_surrogate d \<Longrightarrow> unat d \<le> 0xDFFF"
    by (simp add: is_low_surrogate_def word_le_nat_alt)
  ultimately show ?case using 3 by (auto split: if_splits)
qed

lemma uriUnreserved_not_percent: "uriUnreserved c \<Longrightarrow> c \<noteq> 0x25"
  by (auto simp: uriUnreserved_def is_alnum_def)

lemma unescape_encode_code_point:
  assumes "cp < 0x110000"
  shows "unescape (encode_code_point cp @ rest) = map of_nat (utf8_bytes cp) @ unescape rest"
proof (cases "cp < 0x80 \<and> uriUnreserved (of_nat cp)")
  case True
  then have "(of_nat cp :: code_unit) \<noteq> 0x25" using uriUnreserved_not_percent by blast
  with True show ?thesis by (simp add: encode_code_point_def utf8_bytes_def)
next
  case False
  then have "encode_code_point cp = concat (map percent (utf8_bytes cp))"
    by (auto simp: encode_code_point_def)
  then show ?thesis
    using unescape_percents [OF utf8_bytes_less [OF assms]] by simp
qed

lemma unescape_encoded:
  assumes "\<forall>cp \<in> set cps. cp < 0x110000"
  shows "unescape (concat (map encode_code_point cps)) = map of_nat (concat (map utf8_bytes cps))"
  using assms
proof (induction cps)
  case Nil
  then show ?case by simp
next
  case (Cons cp cps)
  then show ?case
    using unescape_encode_code_point [of cp "concat (map encode_code_point cps)"]
    by (simp del: unescape.simps)
qed

lemma utf8_less: "b \<in> set (utf8 s) \<Longrightarrow> b < 256"
  using code_points_less utf8_bytes_less by (fastforce simp: utf8_def)

lemma encodeURIComponent_well_formed:
  assumes "well_formed s"
  shows "\<exists>enc. encodeURIComponent s = Inr enc \<and> unescape enc = map of_nat (utf8 s)"
  using assms code_points_less
  by (simp add: encodeURIComponent_def well_formed_def utf8_def unescape_encoded)

section \<open>Percent-decoding\<close>

lemma of_nat_byte:
  assumes "b < 256"
  shows "unat (of_nat b :: code_unit) = b" "(of_nat b :: code_unit) < 0x100"
proof -
  show u: "unat (of_nat b :: code_unit) = b" using assms by (simp add: unat_of_nat_16)
  show "(of_nat b :: code_unit) < 0x100" using assms by (simp add: word_less_nat_alt u)
qed

lemma escape_unit_byte:
  assumes "b < 256"
  shows "escape_unit (of_nat b) = [of_nat b] \<and> (of_nat b :: code_unit) \<noteq> 0x25 \<and> b < 0x80
       \<or> escape_unit (of_nat b) = percent b"
proof (cases "is_alnum (of_nat b :: code_unit) \<or> (of_nat b :: code_unit) \<in> {0x40, 0x2A, 0x5F, 0x2B, 0x2D, 0x2E, 0x2F}")
  case True
  then have "(of_nat b :: code_unit) \<noteq> 0x25" "unat (of_nat b :: code_unit) < 0x80"
    by (auto simp: is_alnum_def word_le_nat_alt)
  with True assms show ?thesis by (simp add: escape_unit_def of_nat_byte)
next
  case False
  with assms show ?thesis by (simp add: escape_unit_def of_nat_byte)
qed

lemma escape_unit_high:
  assumes "0x80 \<le> b" "b < 256"
  shows "escape_unit (of_nat b) = percent b"
  using escape_unit_byte [OF assms(2)] assms(1) by auto

lemma escape_Cons: "escape (c # cs) = escape_unit c @ escape cs"
  by (simp add: escape_def)

lemma escape_append: "escape (xs @ ys) = escape xs @ escape ys"
  by (simp add: escape_def)

lemma escape_high_bytes:
  assumes "\<forall>b \<in> set bs. 0x80 \<le> b \<and> b < 256"
  shows "escape (map of_nat bs) = concat (map percent bs)"
  using assms by (induction bs) (simp_all add: escape_Cons escape_unit_high, simp add: escape_def)

lemma decode_literal:
  assumes "c \<noteq> 0x25"
  shows "decodeURIComponent (c # X) =
     (case decodeURIComponent X of Inl e \<Rightarrow> Inl e | Inr r \<Rightarrow> Inr (c # r))"
  using assms by simp

lemma decode_percent_ascii:
  assumes "b < 0x80"
  shows "decodeURIComponent (percent b @ X) =
     (case decodeURIComponent X of Inl e \<Rightarrow> Inl e | Inr r \<Rightarrow> Inr (of_nat b # r))"
proof -
  have b: "b < 256" using assms by simp
  show ?thesis
    unfolding percent_def
    using assms hex_octet_percent [OF b]
    by (simp del: hex_octet.simps)
qed

lemma continuation_percent:
  assumes "\<forall>b \<in> set bs. b < 256"
  shows "continuation_octets (length bs) (concat (map percent bs) @ X) = Some (bs, X)"
  using assms
proof (induction bs)
  case Nil
  then show ?case by simp
next
  case (Cons b bs)
  then have b: "b < 256" by simp
  have "concat (map percent (b # bs)) @ X
        = 0x25 # HEX_DIGIT (b div 16) # HEX_DIGIT (b mod 16) # (concat (map percent bs) @ X)"
    by (simp add: percent_def)
  then show ?case
    using Cons hex_octet_percent [OF b]
    by (simp del: hex_octet.simps)
qed

lemma drop_2_Cons: "drop 2 (x # y # r) = r"
  by simp

lemma decode_multi:
  assumes "0xC0 \<le> b0" "b0 < 0xF8" "\<forall>b \<in> set bs. b < 256"
    and "length bs = (if b0 < 0xE0 then 1 else if b0 < 0xF0 then 2 else 3)"
    and "utf8_decode (b0 # bs) = Some cp"
  shows "decodeURIComponent (percent b0 @ concat (map percent bs) @ X) =
     (case decodeURIComponent X of Inl e \<Rightarrow> Inl e | Inr r \<Rightarrow> Inr (utf16_units cp @ r))"
proof -
  have b: "b0 < 256" using assms(2) by simp
  have p: "percent b0 @ concat (map percent bs) @ X
        = 0x25 # HEX_DIGIT (b0 div 16) # HEX_DIGIT (b0 mod 16) # (concat (map percent bs) @ X)"
    by (simp add: percent_def)
  have co: "continuation_octets (if b0 < 0xE0 then 1 else if b0 < 0xF0 then 2 else 3)
              (concat (map percent bs) @ X) = Some (bs, X)"
    using continuation_percent [OF assms(3), of X] assms(4) by simp
  have nb: "\<not> b0 < 0x80" "\<not> (b0 < 0xC0 \<or> 0xF8 \<le> b0)" using assms(1,2) by simp_all
  show ?thesis
    unfolding p
    by (subst decodeURIComponent.simps)
       (simp only: hex_octet_percent [OF b] nb co assms(5) option.case prod.case if_False
          if_True drop_2_Cons simp_thms)
qed

section \<open>UTF-8 is decoded\<close>

lemma radix64_digits:
  fixes n :: nat
  shows "n div 0x1000 * 0x1000 + n div 0x40 mod 0x40 * 0x40 + n mod 0x40 = n"
    and "n div 0x40000 * 0x40000 + n div 0x1000 mod 0x40 * 0x1000
           + n div 0x40 mod 0x40 * 0x40 + n mod 0x40 = n"
proof -
  define m0 where "m0 = n mod 64"
  define a where "a = n div 64"
  define m1 where "m1 = a mod 64"
  define b where "b = a div 64"
  define m2 where "m2 = b mod 64"
  define c where "c = b div 64"
  have e: "n = a * 64 + m0" "a = b * 64 + m1" "b = c * 64 + m2"
    by (simp_all add: m0_def a_def m1_def b_def m2_def c_def)
  have f: "n div 0x1000 = b" "n div 0x40000 = c"
    by (simp_all add: a_def b_def c_def div_mult2_eq [symmetric])
  have "b * 0x1000 + m1 * 0x40 + m0 = n" "c * 0x40000 + m2 * 0x1000 + m1 * 0x40 + m0 = n"
    using e by linarith+
  then show "n div 0x1000 * 0x1000 + n div 0x40 mod 0x40 * 0x40 + n mod 0x40 = n"
    and "n div 0x40000 * 0x40000 + n div 0x1000 mod 0x40 * 0x1000
           + n div 0x40 mod 0x40 * 0x40 + n mod 0x40 = n"
    unfolding f by (simp_all add: m0_def a_def m1_def b_def m2_def)
qed

lemma utf8_decode_utf8_bytes:
  assumes "0x80 \<le> cp" "cp < 0x110000" "\<not> is_surrogate cp"
  shows "\<exists>b0 bs. utf8_bytes cp = b0 # bs \<and> 0xC0 \<le> b0 \<and> b0 < 0xF8
           \<and> (\<forall>b \<in> set bs. 0x80 \<le> b \<and> b < 256)
           \<and> length bs = (if b0 < 0xE0 then 1 else if b0 < 0xF0 then 2 else 3)
           \<and> utf8_decode (b0 # bs) = Some cp"
proof -
  consider (two) "cp < 0x800" | (three) "0x800 \<le> cp" "cp < 0x10000" | (four) "0x10000 \<le> cp"
    by linarith
  then show ?thesis
  proof cases
    case two
    have "cp div 0x40 * 0x40 + cp mod 0x40 = cp" by simp
    moreover have "cp div 0x40 < 32" "cp mod 0x40 < 128" using two by arith+
    ultimately show ?thesis using two assms(1)
      by (simp add: utf8_bytes_def is_continuation_def Let_def)
  next
    case three
    have d: "cp div 0x1000 * 0x1000 + cp div 0x40 mod 0x40 * 0x40 + cp mod 0x40 = cp"
      using radix64_digits [of cp] by simp
    have "cp div 0x1000 < 16" "cp div 0x40 mod 0x40 < 128" "cp mod 0x40 < 128"
      using three(2) by arith+
    with three assms(3) d show ?thesis
      by (simp add: utf8_bytes_def is_continuation_def Let_def)
  next
    case four
    have d: "cp div 0x40000 * 0x40000 + cp div 0x1000 mod 0x40 * 0x1000
             + cp div 0x40 mod 0x40 * 0x40 + cp mod 0x40 = cp"
      using radix64_digits [of cp] by simp
    have "cp div 0x40000 < 5" "cp div 0x1000 mod 0x40 < 128" "cp div 0x40 mod 0x40 < 128"
      "cp mod 0x40 < 128"
      using assms(2) by arith+
    with four assms(2) d show ?thesis
      by (simp add: utf8_bytes_def is_continuation_def Let_def)
  qed
qed

lemma decode_code_point:
  assumes "cp < 0x110000" "\<not> is_surrogate cp"
  shows "decodeURIComponent (escape (map of_nat (utf8_bytes cp)) @ X) =
     (case decodeURIComponent X of Inl e \<Rightarrow> Inl e | Inr r \<Rightarrow> Inr (utf16_units cp @ r))"
proof (cases "cp < 0x80")
  case True
  then have b: "cp < 256" by simp
  have u: "utf8_bytes cp = [cp]" "utf16_units cp = [of_nat cp]"
    using True by (simp_all add: utf8_bytes_def utf16_units_def)
  from escape_unit_byte [OF b] show ?thesis
  proof
    assume "escape_unit (of_nat cp) = [of_nat cp] \<and> (of_nat cp :: code_unit) \<noteq> 0x25 \<and> cp < 0x80"
    then show ?thesis
      using decode_literal [of "of_nat cp" X] by (simp add: u escape_def cong: sum.case_cong)
  next
    assume "escape_unit (of_nat cp) = percent cp"
    then show ?thesis
      using decode_percent_ascii [OF True, of X] by (simp add: u escape_def cong: sum.case_cong)
  qed
next
  case False
  then have "0x80 \<le> cp" by simp
  from utf8_decode_utf8_bytes [OF this assms]
  obtain b0 bs where bs: "utf8_bytes cp = b0 # bs" "0xC0 \<le> b0" "b0 < 0xF8"
    "\<forall>b \<in> set bs. 0x80 \<le> b \<and> b < 256"
    "length bs = (if b0 < 0xE0 then 1 else if b0 < 0xF0 then 2 else 3)"
    "utf8_decode (b0 # bs) = Some cp"
    by blast
  have "\<forall>b \<in> set (b0 # bs). 0x80 \<le> b \<and> b < 256" using bs(2,3,4) by simp
  then have "escape (map of_nat (utf8_bytes cp)) = percent b0 @ concat (map percent bs)"
    using escape_high_bytes [of "b0 # bs"] by (simp add: bs(1))
  moreover have "\<forall>b \<in> set bs. b < 256" using bs(4) by simp
  ultimately show ?thesis
    using decode_multi [OF bs(2,3) _ bs(5,6), of X] by simp
qed

lemma decode_escape_utf8:
  assumes "\<forall>cp \<in> set cps. cp < 0x110000 \<and> \<not> is_surrogate cp"
  shows "decodeURIComponent (escape (map of_nat (concat (map utf8_bytes cps))))
         = Inr (concat (map utf16_units cps))"
  using assms
proof (induction cps)
  case Nil
  then show ?case by (simp add: escape_def)
next
  case (Cons cp cps)
  then have ih: "decodeURIComponent (escape (map of_nat (concat (map utf8_bytes cps))))
         = Inr (concat (map utf16_units cps))" by simp
  have "escape (map of_nat (concat (map utf8_bytes (cp # cps))))
        = escape (map of_nat (utf8_bytes cp)) @ escape (map of_nat (concat (map utf8_bytes cps)))"
    by (simp add: escape_append)
  then show ?case
    using decode_code_point [of cp "escape (map of_nat (concat (map utf8_bytes cps)))"] Cons.prems ih
    by simp
qed

lemma utf16_units_code_points: "concat (map utf16_units (code_points s)) = s"
proof (induction s rule: code_points.induct)
  case 1
  then show ?case by simp
next
  case (2 c)
  then show ?case using unat_16_less [of c] by (simp add: utf16_units_def)
next
  case (3 c d cs)
  show ?case
  proof (cases "is_high_surrogate c \<and> is_low_surrogate d")
    case True
    then have c: "0xD800 \<le> unat c" "unat c \<le> 0xDBFF" and d: "0xDC00 \<le> unat d" "unat d \<le> 0xDFFF"
      by (simp_all add: is_high_surrogate_def is_low_surrogate_def word_le_nat_alt)
    define x where "x = unat c - 0xD800"
    define y where "y = unat d - 0xDC00"
    have xy: "unat c = 0xD800 + x" "unat d = 0xDC00 + y" "y < 0x400"
      using c d by (simp_all add: x_def y_def)
    have "(x * 0x400 + y) div 0x400 = x" "(x * 0x400 + y) mod 0x400 = y"
      using xy(3) by simp_all
    then have "utf16_units (0x10000 + (unat c - 0xD800) * 0x400 + (unat d - 0xDC00))
               = [of_nat (unat c), of_nat (unat d)]"
      by (simp add: utf16_units_def xy flip: x_def y_def)
    with True 3 show ?thesis by simp
  next
    case False
    have "utf16_units (unat c) = [c]" using unat_16_less [of c] by (simp add: utf16_units_def)
    with False 3 show ?thesis by auto
  qed
qed

lemma decode_escape_utf8_string:
  assumes "well_formed s"
  shows "decodeURIComponent (escape (map of_nat (utf8 s))) = Inr s"
  using decode_escape_utf8 [of "code_points s"] assms code_points_less
  by (simp add: utf8_def well_formed_def utf16_units_code_points)

section \<open>Base64\<close>

lemma b64char_repr:
  assumes "x < 64"
  shows "\<exists>k. b64char x = of_nat k \<and>
           (0x41 \<le> k \<and> k \<le> 0x5A \<and> x = k - 0x41
            \<or> 0x61 \<le> k \<and> k \<le> 0x7A \<and> x = k - 0x61 + 26
            \<or> 0x30 \<le> k \<and> k \<le> 0x39 \<and> x = k - 0x30 + 52
            \<or> k = 0x2B \<and> x = 62
            \<or> k = 0x2F \<and> x = 63)"
proof -
  consider (upper) "x < 26" | (lower) "26 \<le> x" "x < 52" | (digit) "52 \<le> x" "x < 62"
    | (plus) "x = 62" | (slash) "x = 63"
    using assms by linarith
  then show ?thesis
  proof cases
    case upper
    then have "b64char x = of_nat (0x41 + x)" unfolding b64char_def by (simp del: of_nat_add)
    moreover have "0x41 \<le> 0x41 + x \<and> 0x41 + x \<le> 0x5A \<and> x = 0x41 + x - 0x41"
      using upper by arith
    ultimately show ?thesis by blast
  next
    case lower
    then have "b64char x = of_nat (0x61 + (x - 26))"
      unfolding b64char_def by (simp del: of_nat_add)
    moreover have "0x61 \<le> 0x61 + (x - 26) \<and> 0x61 + (x - 26) \<le> 0x7A
        \<and> x = 0x61 + (x - 26) - 0x61 + 26"
      using lower by arith
    ultimately show ?thesis by blast
  next
    case digit
    then have "b64char x = of_nat (0x30 + (x - 52))"
      unfolding b64char_def by (simp del: of_nat_add)
    moreover have "0x30 \<le> 0x30 + (x - 52) \<and> 0x30 + (x - 52) \<le> 0x39
        \<and> x = 0x30 + (x - 52) - 0x30 + 52"
      using digit by arith
    ultimately show ?thesis by blast
  next
    case plus
    then show ?thesis by (intro exI [of _ "0x2B"]) (simp add: b64char_def)
  next
    case slash
    then show ?thesis by (intro exI [of _ "0x2F"]) (simp add: b64char_def)
  qed
qed

lemma b64index_of_nat:
  assumes "k < 128"
  shows "b64index (of_nat k) =
     (if 0x41 \<le> k \<and> k \<le> 0x5A then Some (k - 0x41)
      else if 0x61 \<le> k \<and> k \<le> 0x7A then Some (k - 0x61 + 26)
      else if 0x30 \<le> k \<and> k \<le> 0x39 then Some (k - 0x30 + 52)
      else if k = 0x2B then Some 62
      else if k = 0x2F then Some 63
      else None)"
proof -
  have u: "unat (of_nat k :: code_unit) = k" using assms by (simp add: unat_of_nat_16)
  have e: "(of_nat k :: code_unit) = w \<longleftrightarrow> k = unat w" for w
    using u by (auto simp: word_unat_eq_iff)
  show ?thesis
    unfolding b64index_def by (simp add: word_le_nat_alt u e)
qed

lemma b64index_b64char:
  assumes "x < 64"
  shows "b64index (b64char x) = Some x"
proof -
  from b64char_repr [OF assms] obtain k where k: "b64char x = of_nat k"
    and r: "0x41 \<le> k \<and> k \<le> 0x5A \<and> x = k - 0x41
            \<or> 0x61 \<le> k \<and> k \<le> 0x7A \<and> x = k - 0x61 + 26
            \<or> 0x30 \<le> k \<and> k \<le> 0x39 \<and> x = k - 0x30 + 52
            \<or> k = 0x2B \<and> x = 62
            \<or> k = 0x2F \<and> x = 63"
    by blast
  from r have "k < 128" by linarith
  from b64index_of_nat [OF this] r show ?thesis unfolding k by auto
qed

lemma b64char_not_special:
  assumes "x < 64"
  shows "b64char x \<noteq> 0x3D" "b64char x \<noteq> 0x2D" "b64char x \<noteq> 0x5F" "b64char x \<noteq> 0x2E"
    "\<not> is_ascii_whitespace (b64char x)"
proof -
  from b64char_repr [OF assms] obtain k where k: "b64char x = of_nat k"
    and r: "0x41 \<le> k \<and> k \<le> 0x5A \<or> 0x61 \<le> k \<and> k \<le> 0x7A
            \<or> 0x30 \<le> k \<and> k \<le> 0x39 \<or> k = 0x2B \<or> k = 0x2F"
    by blast
  from r have "k < 128" by linarith
  then have u: "unat (of_nat k :: code_unit) = k" by (simp add: unat_of_nat_16)
  have e: "(of_nat k :: code_unit) = w \<longleftrightarrow> k = unat w" for w
    using u by (auto simp: word_unat_eq_iff)
  show "b64char x \<noteq> 0x3D" "b64char x \<noteq> 0x2D" "b64char x \<noteq> 0x5F" "b64char x \<noteq> 0x2E"
    "\<not> is_ascii_whitespace (b64char x)"
    unfolding k is_ascii_whitespace_def using r by (auto simp: e)
qed

lemma sextet_bounds:
  fixes a b c :: nat
  assumes "a < 256" "b < 256" "c < 256"
  shows "a div 4 < 64 \<and> a mod 4 * 16 + b div 16 < 64 \<and> b mod 16 * 4 + c div 64 < 64
    \<and> c mod 64 < 64 \<and> a mod 4 * 16 < 64 \<and> b mod 16 * 4 < 64"
proof -
  have 1: "a div 4 < 64" "b div 16 < 16" "c div 64 < 4"
    using assms by (simp_all add: div_less_iff_less_mult)
  define p q r s where "p = a mod 4" and "q = b div 16" and "r = b mod 16" and "s = c div 64"
  have "p < 4" "q < 16" "r < 16" "s < 4"
    using 1 by (simp_all add: p_def q_def r_def s_def)
  then have "p * 16 + q < 64 \<and> r * 4 + s < 64 \<and> p * 16 < 64 \<and> r * 4 < 64"
    by simp
  then show ?thesis
    using 1(1) unfolding p_def q_def r_def s_def by simp
qed

lemma sextets_less:
  assumes "\<forall>b \<in> set bs. b < 256"
  shows "\<forall>x \<in> set (sextets bs). x < 64"
  using assms
proof (induction bs rule: sextets.induct)
  case (4 a b c bs)
  then show ?case using sextet_bounds [of a b c] by simp
next
  case (3 a b)
  then show ?case using sextet_bounds [of a b 0] by simp
next
  case (2 a)
  then show ?case using sextet_bounds [of a 0 0] by simp
qed simp

lemma sextet_bytes:
  fixes a b c :: nat
  assumes "b < 256" "c < 256"
  shows "a div 4 * 4 + (a mod 4 * 16 + b div 16) div 16 = a
    \<and> (a mod 4 * 16 + b div 16) mod 16 * 16 + (b mod 16 * 4 + c div 64) div 4 = b
    \<and> (b mod 16 * 4 + c div 64) mod 4 * 64 + c mod 64 = c
    \<and> a div 4 * 4 + a mod 4 * 16 div 16 = a
    \<and> (a mod 4 * 16 + b div 16) mod 16 * 16 + b mod 16 * 4 div 4 = b"
proof -
  have 1: "b div 16 < 16" "c div 64 < 4"
    using assms by (simp_all add: div_less_iff_less_mult)
  show ?thesis using 1 by simp
qed

lemma base64_decode_sextets:
  assumes "\<forall>b \<in> set bs. b < 256"
  shows "base64_decode (sextets bs) = bs"
  using assms
proof (induction bs rule: sextets.induct)
  case (4 a b c bs)
  then show ?case using sextet_bytes [of b c a] by simp
next
  case (3 a b)
  then show ?case using sextet_bytes [of b 0 a] by simp
next
  case (2 a)
  then show ?case using sextet_bytes [of 0 0 a] by simp
qed simp

lemma length_sextets: "length (sextets bs) mod 4 \<noteq> 1"
  by (induction bs rule: sextets.induct) simp_all

lemma base64_encode_sextets:
  "base64_encode bs = map b64char (sextets bs) @ replicate ((4 - length (sextets bs) mod 4) mod 4) 0x3D"
proof (induction bs rule: sextets.induct)
  case (4 a b c bs)
  then show ?case by simp
qed (simp_all add: numeral_2_eq_2)

section \<open>The URL-safe encoding and its inverse\<close>

lemma replace_all_unurl: "replace_all 0x5F 0x2F (replace_all 0x2D 0x2B s) = map unurl_char s"
  by (simp add: replace_all_def unurl_char_def)

lemma replace_all_url: "replace_all 0x2F 0x5F (replace_all 0x2B 0x2D s) = map url_char s"
  by (simp add: replace_all_def url_char_def)

lemma strip_trailing_equals_padding:
  assumes "\<forall>c \<in> set xs. c \<noteq> 0x3D"
  shows "strip_trailing_equals (xs @ replicate k 0x3D) = xs"
proof -
  have "dropWhile (\<lambda>c. c = 0x3D) (replicate k 0x3D @ rev xs) = dropWhile (\<lambda>c. c = 0x3D) (rev xs)"
    by (rule dropWhile_append2) simp
  moreover have "dropWhile (\<lambda>c. c = 0x3D) (rev xs) = rev xs"
    using assms by (cases "rev xs") (auto simp: dropWhile_eq_self_iff)
  ultimately show ?thesis by (simp add: strip_trailing_equals_def)
qed

lemma url_char_b64char:
  assumes "x < 64"
  shows "url_char (b64char x) \<noteq> 0x3D" "url_char (b64char x) \<noteq> 0x2E"
    "unurl_char (url_char (b64char x)) = b64char x"
  using b64char_not_special [OF assms] by (simp_all add: url_char_def unurl_char_def)

lemma base64url_sextets:
  "base64url s = map (\<lambda>x. url_char (b64char x)) (sextets (utf8 s))"
proof -
  have b: "\<forall>x \<in> set (sextets (utf8 s)). x < 64"
    using sextets_less [of "utf8 s"] utf8_less [of _ s] by blast
  have "\<forall>c \<in> set (map (\<lambda>x. url_char (b64char x)) (sextets (utf8 s))). c \<noteq> 0x3D"
    using b url_char_b64char(1) by auto
  from strip_trailing_equals_padding [OF this] show ?thesis
    unfolding base64url_def replace_all_url base64_encode_sextets [of "utf8 s"]
    by (simp add: url_char_def o_def)
qed

lemma btoa_bytes:
  assumes "\<forall>b \<in> set bs. b < 256"
  shows "btoa (map of_nat bs) = Inr (base64_encode bs)"
proof -
  have "\<not> (\<exists>c \<in> set (map of_nat bs :: jsstring). 0xFF < c)"
    using assms of_nat_byte(1) by (auto simp: word_less_nat_alt)
  moreover have "map unat (map of_nat bs :: jsstring) = bs"
    using assms by (induction bs) (simp_all add: of_nat_byte)
  ultimately show ?thesis unfolding btoa_def by simp
qed

lemma base64urlEncode_well_formed:
  assumes "well_formed s"
  shows "base64urlEncode s = Inr (base64url s)"
proof -
  from encodeURIComponent_well_formed [OF assms] obtain enc
    where enc: "encodeURIComponent s = Inr enc" "unescape enc = map of_nat (utf8 s)"
    by blast
  have "btoa (map of_nat (utf8 s)) = Inr (base64_encode (utf8 s))"
    using btoa_bytes [of "utf8 s"] utf8_less [of _ s] by blast
  then show ?thesis by (simp add: base64urlEncode_def enc base64url_def)
qed

lemma padding_length:
  assumes "n mod 4 \<noteq> 1"
  shows "drop ((n + 3) mod 4) (js ''==='') = replicate ((4 - n mod 4) mod 4) 0x3D"
proof -
  have "n mod 4 < 4" by simp
  then consider "n mod 4 = 0" | "n mod 4 = 2" | "n mod 4 = 3" using assms by linarith
  then show ?thesis
  proof cases
    case 1
    then have "(n + 3) mod 4 = 3" by presburger
    with 1 show ?thesis by (simp add: js_def)
  next
    case 2
    then have "(n + 3) mod 4 = 1" by presburger
    with 2 show ?thesis by (simp add: js_def numeral_2_eq_2)
  next
    case 3
    then have "(n + 3) mod 4 = 2" by presburger
    with 3 show ?thesis by (simp add: js_def numeral_2_eq_2)
  qed
qed

lemma strip_padding_padding:
  assumes "\<forall>c \<in> set m. c \<noteq> 0x3D" "length m mod 4 \<noteq> 1"
  shows "strip_padding (m @ replicate ((4 - length m mod 4) mod 4) 0x3D) = m"
proof -
  have "length m mod 4 < 4" by simp
  then consider "length m mod 4 = 0" | "length m mod 4 = 2" | "length m mod 4 = 3"
    using assms(2) by linarith
  then show ?thesis
  proof cases
    case 1
    have "m \<noteq> [] \<Longrightarrow> last m \<noteq> 0x3D" using assms(1) last_in_set by blast
    with 1 show ?thesis by (auto simp: strip_padding_def)
  next
    case 2
    then have "(length m + 2) mod 4 = 0" by presburger
    with 2 show ?thesis
      by (simp add: strip_padding_def numeral_2_eq_2 butlast_append)
  next
    case 3
    then have l: "(length m + 1) mod 4 = 0" "m \<noteq> []" by (presburger, auto)
    then have "last m \<noteq> 0x3D" using assms(1) last_in_set by blast
    with 3 l show ?thesis
      by (simp add: strip_padding_def butlast_append)
  qed
qed

lemma atob_padded:
  assumes "\<forall>x \<in> set S. x < 64" "length S mod 4 \<noteq> 1"
  shows "atob (map b64char S @ replicate ((4 - length S mod 4) mod 4) 0x3D)
         = Inr (map of_nat (base64_decode S))"
proof -
  let ?m = "map b64char S"
  have ne: "\<forall>c \<in> set ?m. c \<noteq> 0x3D" and nw: "\<forall>c \<in> set ?m. \<not> is_ascii_whitespace c"
    using assms(1) b64char_not_special by auto
  have "\<not> is_ascii_whitespace 0x3D" by (simp add: is_ascii_whitespace_def)
  then have f: "filter (\<lambda>c. \<not> is_ascii_whitespace c) (?m @ replicate ((4 - length S mod 4) mod 4) 0x3D)
        = ?m @ replicate ((4 - length ?m mod 4) mod 4) 0x3D"
    using nw by (simp add: filter_id_conv)
  have s: "strip_padding (?m @ replicate ((4 - length ?m mod 4) mod 4) 0x3D) = ?m"
    using strip_padding_padding [OF ne] assms(2) by simp
  have i: "\<not> (\<exists>c \<in> set ?m. b64index c = None)" "map (\<lambda>c. the (b64index c)) ?m = S"
    using assms(1) by (auto simp: b64index_b64char map_idI)
  show ?thesis
    unfolding atob_def f s Let_def using i assms(2) by simp
qed

lemma base64urlDecode_base64url:
  assumes "well_formed s"
  shows "base64urlDecode (base64url s) = Inr s"
proof -
  let ?S = "sextets (utf8 s)"
  have b: "\<forall>b \<in> set (utf8 s). b < 256" using utf8_less [of _ s] by blast
  have x: "\<forall>x \<in> set ?S. x < 64" using sextets_less [OF b] .
  have r: "replace_all 0x5F 0x2F (replace_all 0x2D 0x2B (base64url s)) = map b64char ?S"
    unfolding base64url_sextets replace_all_unurl using x url_char_b64char(3)
    by simp
  have p: "drop ((length (base64url s) + 3) mod 4) (js ''==='')
           = replicate ((4 - length ?S mod 4) mod 4) 0x3D"
    using padding_length [OF length_sextets [of "utf8 s"]] by (simp add: base64url_sextets)
  have "atob (map b64char ?S @ replicate ((4 - length ?S mod 4) mod 4) 0x3D)
        = Inr (map of_nat (utf8 s))"
    using atob_padded [OF x length_sextets] base64_decode_sextets [OF b] by simp
  then show ?thesis
    unfolding base64urlDecode_def r p Let_def
    by (simp add: decode_escape_utf8_string [OF assms])
qed

lemma base64url_no_dot: "0x2E \<notin> set (base64url s)"
proof -
  have "\<forall>x \<in> set (sextets (utf8 s)). x < 64"
    using sextets_less [of "utf8 s"] utf8_less [of _ s] by blast
  then show ?thesis unfolding base64url_sextets using url_char_b64char(2) by auto
qed

lemma sextets_Nil: "sextets bs = [] \<longleftrightarrow> bs = []"
  by (induction bs rule: sextets.induct) simp_all

lemma utf8_Nil: "utf8 s = [] \<longleftrightarrow> s = []"
proof -
  have "utf8_bytes cp \<noteq> []" for cp by (simp add: utf8_bytes_def Let_def)
  moreover have "code_points s = [] \<longleftrightarrow> s = []"
    by (induction s rule: code_points.induct) auto
  ultimately show ?thesis by (auto simp: utf8_def)
qed

lemma base64url_Nil: "base64url s = [] \<longleftrightarrow> s = []"
  by (simp add: base64url_sextets sextets_Nil utf8_Nil)

section \<open>Issued tokens\<close>

lemma well_formed_QuoteJSONString: "well_formed (QuoteJSONString s)"
proof -
  have "well_formed [0x22]" by (simp add: well_formed_ascii is_ascii_def)
  then show ?thesis
    unfolding QuoteJSONString_def by (intro well_formed_append well_formed_quote_units)
qed

lemma well_formed_decimal_int: "well_formed (decimal_int n)"
proof -
  have "is_ascii c" if "is_digit c" for c
    using that by (auto simp: is_digit_def is_ascii_def word_le_nat_alt word_less_nat_alt)
  then have "\<forall>c \<in> set (decimal k). is_ascii c" for k using decimal_digits by blast
  then show ?thesis
    by (intro well_formed_ascii) (auto simp: decimal_int_def is_ascii_def)
qed

lemma well_formed_JSON_stringify_payload:
  assumes "\<bar>n\<bar> \<le> 2 ^ 53"
  shows "well_formed (JSON_stringify_payload oid em (Finite (of_int n)))"
proof -
  have "well_formed [c]" if "is_ascii c" for c using that by (simp add: well_formed_ascii)
  then have "well_formed [0x7B]" "well_formed [0x3A]" "well_formed [0x2C]" "well_formed [0x7D]"
    by (simp_all add: is_ascii_def)
  then show ?thesis
    unfolding JSON_stringify_payload_def
    by (simp only: isFinite_def jsnumber.case if_True NumberToString_int [OF assms])
       (intro well_formed_append well_formed_QuoteJSONString well_formed_decimal_int)
qed

lemma JSON_stringify_payload_not_Nil: "JSON_stringify_payload oid em x \<noteq> []"
  by (simp add: JSON_stringify_payload_def)

lemma payload_half_append:
  assumes "0x2E \<notin> set B"
  shows "payload_half (B @ 0x2E # rest) = B"
  using assms unfolding payload_half_def by (induction B) simp_all

lemma signature_half_append:
  assumes "0x2E \<notin> set B"
  shows "signature_half (B @ 0x2E # rest) = takeWhile (\<lambda>c. c \<noteq> 0x2E) rest"
proof -
  have "dropWhile (\<lambda>c. c \<noteq> 0x2E) (B @ 0x2E # rest) = 0x2E # rest"
    using assms by (induction B) simp_all
  then show ?thesis by (simp add: signature_half_def)
qed

lemma takeWhile_segment:
  assumes "0x2E \<notin> set H" "tail = [] \<or> hd tail = 0x2E"
  shows "takeWhile (\<lambda>c. c \<noteq> 0x2E) (H @ tail) = H"
  using assms by (induction H) (auto simp: takeWhile_eq_Nil_iff)

lemma Get_payload_object:
  "Get (payload_object oid em n) (js ''order_id'') = JStr oid"
  "Get (payload_object oid em n) (js ''exp'') = JNum (Finite (of_int n))"
  by (simp_all add: Get_def payload_object_def js_def)

lemma verifyReviewToken_payload_object:
  assumes "truthy (REVIEW_LINK_SECRET env)" "two_part token"
    and "hmacHex (the (REVIEW_LINK_SECRET env)) (payload_half token) = signature_half token"
    and "token_payload token = Inr (payload_object oid em n)"
  shows "verifyReviewToken env token oid' now' = Inr (oid = oid' \<and> now' \<le> n)"
proof -
  have o: "ToString (or_else (Get (payload_object x em n) (js ''order_id'')) (JStr [])) = Inr x"
    for x by (simp add: Get_payload_object or_else_def ToBoolean_def)
  have e: "ToNumber (or_else (Get (payload_object x em n) (js ''exp'')) (JNum (Finite 0)))
           = Inr (Finite (of_int n))"
    for x by (simp add: Get_payload_object or_else_def ToBoolean_def ToNumber_def)
  have b: "ToBoolean (payload_object x em n)" for x by (simp add: payload_object_def ToBoolean_def)
  have a: "now_after now' (Finite (of_int n)) \<longleftrightarrow> n < now'" by (simp add: now_after_def)
  show ?thesis
    unfolding verifyReviewToken_unfold using assms(1,2,3)
    by (auto simp: assms(4) o e b a isFinite_def)
qed

lemma verifyReviewToken_signed:
  assumes "truthy (REVIEW_LINK_SECRET env)" "\<bar>n\<bar> \<le> 2 ^ 53"
    and "tail = [] \<or> hd tail = 0x2E"
  shows "verifyReviewToken env
           (base64url (JSON_stringify_payload oid em (Finite (of_int n))) @ 0x2E #
            hmacHex (the (REVIEW_LINK_SECRET env))
              (base64url (JSON_stringify_payload oid em (Finite (of_int n)))) @ tail)
           oid' now'
         = Inr (oid = oid' \<and> now' \<le> n)"
proof -
  let ?J = "JSON_stringify_payload oid em (Finite (of_int n))"
  let ?B = "base64url ?J"
  let ?H = "hmacHex (the (REVIEW_LINK_SECRET env)) ?B"
  let ?t = "?B @ 0x2E # ?H @ tail"
  have p: "payload_half ?t = ?B" by (rule payload_half_append) (rule base64url_no_dot)
  have s: "signature_half ?t = ?H"
    using signature_half_append [OF base64url_no_dot, of ?J "?H @ tail"]
      takeWhile_segment [OF hmacHex_no_special(3) assms(3)]
    by simp
  have t: "two_part ?t"
    unfolding two_part_def p s
    by (simp add: hmacHex_nonempty base64url_Nil JSON_stringify_payload_not_Nil)
  have "token_payload ?t = Inr (payload_object oid em n)"
    unfolding token_payload_def p
    by (simp add: base64urlDecode_base64url [OF well_formed_JSON_stringify_payload [OF assms(2)]]
        JSON_parse_payload [OF assms(2)])
  from verifyReviewToken_payload_object [OF assms(1) t _ this] show ?thesis
    unfolding p s by simp
qed

lemma createReviewToken_issued:
  assumes "truthy (REVIEW_LINK_SECRET env)" "\<bar>now + 3888000000\<bar> \<le> 2 ^ 53"
  shows "createReviewToken toLowerCase env oid em now =
     Inr (base64url (JSON_stringify_payload oid (toLowerCase em) (Finite (of_int (now + 3888000000))))
          @ 0x2E # hmacHex (the (REVIEW_LINK_SECRET env))
              (base64url (JSON_stringify_payload oid (toLowerCase em)
                 (Finite (of_int (now + 3888000000))))))"
proof -
  define n where "n = now + 3888000000"
  have n: "\<bar>n\<bar> \<le> 2 ^ 53" using assms(2) by (simp add: n_def)
  have "of_int now + 45 * 24 * 60 * 60 * 1000 = (of_int n :: rat)" by (simp add: n_def)
  then have r: "roundToDouble (of_int now + 45 * 24 * 60 * 60 * 1000) = Finite (of_int n)"
    using roundToDouble_of_int [OF n] by simp
  have "createReviewToken toLowerCase env oid em now =
     Inr (base64url (JSON_stringify_payload oid (toLowerCase em) (Finite (of_int n)))
          @ 0x2E # hmacHex (the (REVIEW_LINK_SECRET env))
              (base64url (JSON_stringify_payload oid (toLowerCase em) (Finite (of_int n)))))"
    unfolding createReviewToken_def Let_def r using assms(1)
    by (simp add: base64urlEncode_well_formed [OF well_formed_JSON_stringify_payload [OF n]]
        js_def)
  then show ?thesis unfolding n_def .
qed

lemma token_payload_signed:
  assumes "\<bar>n\<bar> \<le> 2 ^ 53"
  shows "token_payload (base64url (JSON_stringify_payload oid em (Finite (of_int n))) @ 0x2E # rest)
         = Inr (payload_object oid em n)"
  unfolding token_payload_def payload_half_append [OF base64url_no_dot]
  by (simp add: base64urlDecode_base64url [OF well_formed_JSON_stringify_payload [OF assms]]
      JSON_parse_payload [OF assms])


lemma clock_range:
  assumes "\<bar>now\<bar> \<le> 8640000000000000"
  shows "\<bar>now + 3888000000\<bar> \<le> (2 :: int) ^ 53"
  using assms by simp


lemma dropWhile_first_dot:
  assumes "0x2E \<notin> set B"
  shows "dropWhile (\<lambda>c. c \<noteq> 0x2E) (B @ 0x2E # rest) = 0x2E # rest"
  using assms by (induction B) simp_all

lemma payload_half_extra:
  assumes "0x2E \<in> set token"
  shows "payload_half (token @ 0x2E # extra) = payload_half token"
  using assms unfolding payload_half_def by (induction token) auto

lemma signature_half_extra:
  assumes "0x2E \<in> set token"
  shows "signature_half (token @ 0x2E # extra) = signature_half token"
proof -
  have t: "takeWhile (\<lambda>c. c \<noteq> 0x2E) (r @ 0x2E # extra) = takeWhile (\<lambda>c. c \<noteq> 0x2E) r"
    for r :: jsstring by (induction r) auto
  have "\<exists>r. dropWhile (\<lambda>c. c \<noteq> 0x2E) token = 0x2E # r
           \<and> dropWhile (\<lambda>c. c \<noteq> 0x2E) (token @ 0x2E # extra) = 0x2E # r @ 0x2E # extra"
    using assms by (induction token) auto
  then show ?thesis unfolding signature_half_def using t by auto
qed

section \<open>Signed payload texts\<close>

lemma signed_token_halves:
  "payload_half (signed_token secret text) = base64url text"
  "signature_half (signed_token secret text) = hmacHex secret (base64url text)"
proof -
  have d: "js ''.'' = [0x2E]" by (simp add: js_def)
  show "payload_half (signed_token secret text) = base64url text"
    unfolding signed_token_def d using payload_half_append [OF base64url_no_dot] by simp
  show "signature_half (signed_token secret text) = hmacHex secret (base64url text)"
    unfolding signed_token_def d
    using signature_half_append [OF base64url_no_dot, of "text" "hmacHex secret (base64url text) @ []"]
      takeWhile_segment [OF hmacHex_no_special(3), of "[]" secret "base64url text"]
    by simp
qed

lemma signed_token_payload:
  assumes "well_formed text" "text \<noteq> []"
  shows "two_part (signed_token secret text)"
    and "token_payload (signed_token secret text) = JSON_parse text"
proof -
  have "0x2E \<in> set (signed_token secret text)" by (simp add: signed_token_def js_def)
  then show "two_part (signed_token secret text)"
    unfolding two_part_def signed_token_halves
    using assms(2) by (simp add: base64url_Nil hmacHex_nonempty)
  show "token_payload (signed_token secret text) = JSON_parse text"
    unfolding token_payload_def signed_token_halves
    by (simp add: base64urlDecode_base64url [OF assms(1)])
qed

lemma verifyReviewToken_signed_token:
  assumes "REVIEW_LINK_SECRET env = Some secret" "secret \<noteq> []"
    and "well_formed text" "text \<noteq> []" "JSON_parse text = Inr payload"
  shows "verifyReviewToken env (signed_token secret text) order_id now =
     (if \<not> ToBoolean payload then Inr False
      else
        (case ToString (or_else (Get payload (js ''order_id'')) (JStr [])) of
           Inl e \<Rightarrow> Inl e
         | Inr embedded \<Rightarrow>
             if embedded \<noteq> order_id then Inr False
             else
               (case ToNumber (or_else (Get payload (js ''exp'')) (JNum (Finite 0))) of
                  Inl e \<Rightarrow> Inl e
                | Inr exp' \<Rightarrow>
                    if \<not> isFinite exp' \<or> now_after now exp' then Inr False else Inr True)))"
  unfolding verifyReviewToken_unfold
  using signed_token_payload [OF assms(3,4), of secret] assms(1,2,5)
  by (simp add: signed_token_halves truthy_def)

lemma parse_value_decimal_int_sep:
  assumes "c = 0x2C \<or> c = 0x7D"
  shows "parse_value (Suc f) (skip_ws (decimal_int i @ c # r))
         = Some (JNum (roundToDouble (of_int i)), c # r)"
proof -
  obtain x xs where d: "decimal_int i = x # xs" "is_digit x \<or> x = 0x2D"
    using decimal_int_Cons by blast
  have c: "\<not> is_digit c" "c \<noteq> 0x2E" "c \<noteq> 0x65" "c \<noteq> 0x45"
    using assms by (auto simp: is_digit_def)
  have pn: "parse_number (decimal_int i @ c # r) = Some (roundToDouble (of_int i), c # r)"
    by (rule parse_number_int [OF c])
  have "parse_value (Suc f) (x # (xs @ c # r)) =
     (case parse_number (x # (xs @ c # r)) of None \<Rightarrow> None | Some (v, rest) \<Rightarrow> Some (JNum v, rest))"
    by (rule parse_value_number [OF d(2)])
  then show ?thesis unfolding skip_ws_decimal_int using pn d(1) by simp
qed

lemma parse_value_string_ws:
  "parse_value (Suc f) (skip_ws (0x22 # quote_units s @ 0x22 # rest)) = Some (JStr s, rest)"
  unfolding skip_ws_Cons [OF not_json_ws(1)] by (rule parse_value_string)

lemma parse_members_last:
  assumes "parse_value f (skip_ws X) = Some (v, 0x7D # r)"
  shows "parse_members (Suc f) (skip_ws (0x22 # quote_units k @ 0x22 # 0x3A # X)) = Some ([(k, v)], r)"
  unfolding skip_ws_Cons [OF not_json_ws(1)]
  by (subst parse_members.simps)
     (simp add: parse_string_chars_quote_units skip_ws_Cons not_json_ws assms
      del: parse_value.simps parse_members.simps)

lemma parse_members_more:
  assumes "parse_value f (skip_ws X) = Some (v, 0x2C # r)"
    and "parse_members f (skip_ws r) = Some (ms, rest)"
  shows "parse_members (Suc f) (skip_ws (0x22 # quote_units k @ 0x22 # 0x3A # X))
         = Some ((k, v) # ms, rest)"
  unfolding skip_ws_Cons [OF not_json_ws(1)]
  by (subst parse_members.simps)
     (simp add: parse_string_chars_quote_units skip_ws_Cons not_json_ws assms
      del: parse_value.simps parse_members.simps)

lemma parse_value_object:
  assumes "parse_members f (skip_ws (0x22 # cs)) = Some (ms, rest)"
  shows "parse_value (Suc f) (skip_ws (0x7B # 0x22 # cs)) = Some (JObj ms, rest)"
  unfolding skip_ws_Cons [OF not_json_ws(5)]
  using assms
  by (subst parse_value.simps)
     (simp add: skip_ws_Cons not_json_ws starts_with_def
      del: parse_value.simps parse_members.simps)

lemma JSON_parse_object:
  assumes "\<And>f. parse_value (Suc (Suc (Suc (Suc f)))) (skip_ws (0x7B # cs)) = Some (v, [])"
  shows "JSON_parse (0x7B # cs) = Inr v"
proof -
  have "2 * length (0x7B # cs) + 2 = Suc (Suc (Suc (Suc (2 * length cs))))" by simp
  then show ?thesis unfolding JSON_parse_def using assms [of "2 * length cs"]
    by (simp add: skip_ws_Nil del: parse_value.simps)
qed

lemma JSON_parse_nested_object:
  assumes "\<And>f. parse_value (Suc (Suc (Suc (Suc (Suc f))))) (skip_ws (0x7B # c # cs)) = Some (v, [])"
  shows "JSON_parse (0x7B # c # cs) = Inr v"
proof -
  have "2 * length (0x7B # c # cs) + 2 = Suc (Suc (Suc (Suc (Suc (Suc (2 * length cs))))))"
    by simp
  then show ?thesis unfolding JSON_parse_def using assms [of "Suc (2 * length cs)"]
    by (simp add: skip_ws_Nil del: parse_value.simps)
qed

lemma JSON_parse_numeric_order_id:
  "JSON_parse (0x7B # 0x22 # quote_units (js ''order_id'') @ 0x22 # 0x3A # decimal_int k @
     0x2C # 0x22 # quote_units (js ''exp'') @ 0x22 # 0x3A # decimal_int n @ [0x7D])
   = Inr (JObj [(js ''order_id'', JNum (roundToDouble (of_int k))),
                (js ''exp'', JNum (roundToDouble (of_int n)))])"
proof (rule JSON_parse_object, rule parse_value_object)
  fix f
  have v2: "parse_value (Suc f) (skip_ws (decimal_int n @ 0x7D # []))
            = Some (JNum (roundToDouble (of_int n)), 0x7D # [])"
    by (rule parse_value_decimal_int_sep) simp
  have v1: "parse_value (Suc (Suc f)) (skip_ws (decimal_int k @ 0x2C # 0x22 #
              quote_units (js ''exp'') @ 0x22 # 0x3A # decimal_int n @ [0x7D]))
            = Some (JNum (roundToDouble (of_int k)), 0x2C # 0x22 #
              quote_units (js ''exp'') @ 0x22 # 0x3A # decimal_int n @ [0x7D])"
    by (rule parse_value_decimal_int_sep) simp
  show "parse_members (Suc (Suc (Suc f)))
          (skip_ws (0x22 # quote_units (js ''order_id'') @ 0x22 # 0x3A # decimal_int k @
             0x2C # 0x22 # quote_units (js ''exp'') @ 0x22 # 0x3A # decimal_int n @ [0x7D]))
        = Some ([(js ''order_id'', JNum (roundToDouble (of_int k))),
                 (js ''exp'', JNum (roundToDouble (of_int n)))], [])"
    by (rule parse_members_more [OF v1 parse_members_last [OF v2]])
qed

lemma JSON_parse_object_order_id:
  "JSON_parse (0x7B # 0x22 # quote_units (js ''order_id'') @ 0x22 # 0x3A #
     0x7B # 0x22 # quote_units (js ''toString'') @ 0x22 # 0x3A # decimal_int 1 @ 0x7D #
     0x2C # 0x22 # quote_units (js ''exp'') @ 0x22 # 0x3A # decimal_int n @ [0x7D])
   = Inr (JObj [(js ''order_id'', JObj [(js ''toString'', JNum (roundToDouble (of_int 1)))]),
                (js ''exp'', JNum (roundToDouble (of_int n)))])"
proof (rule JSON_parse_nested_object, rule parse_value_object)
  fix f
  let ?rest = "0x2C # 0x22 # quote_units (js ''exp'') @ 0x22 # 0x3A # decimal_int n @ [0x7D]"
  have v2: "parse_value (Suc (Suc f)) (skip_ws (decimal_int n @ 0x7D # []))
            = Some (JNum (roundToDouble (of_int n)), 0x7D # [])"
    by (rule parse_value_decimal_int_sep) simp
  have i: "parse_value (Suc f) (skip_ws (decimal_int 1 @ 0x7D # ?rest))
            = Some (JNum (roundToDouble (of_int 1)), 0x7D # ?rest)"
    by (rule parse_value_decimal_int_sep) simp
  have v1: "parse_value (Suc (Suc (Suc f))) (skip_ws (0x7B # 0x22 # quote_units (js ''toString'') @
              0x22 # 0x3A # decimal_int 1 @ 0x7D # ?rest))
            = Some (JObj [(js ''toString'', JNum (roundToDouble (of_int 1)))], ?rest)"
    by (rule parse_value_object [OF parse_members_last [OF i]])
  show "parse_members (Suc (Suc (Suc (Suc f))))
          (skip_ws (0x22 # quote_units (js ''order_id'') @ 0x22 # 0x3A #
             0x7B # 0x22 # quote_units (js ''toString'') @ 0x22 # 0x3A # decimal_int 1 @ 0x7D #
             0x2C # 0x22 # quote_units (js ''exp'') @ 0x22 # 0x3A # decimal_int n @ [0x7D]))
        = Some ([(js ''order_id'', JObj [(js ''toString'', JNum (roundToDouble (of_int 1)))]),
                 (js ''exp'', JNum (roundToDouble (of_int n)))], [])"
    by (rule parse_members_more [OF v1 parse_members_last [OF v2]])
qed

lemma JSON_parse_string_exp:
  "JSON_parse (0x7B # 0x22 # quote_units (js ''order_id'') @ 0x22 # 0x3A #
     0x22 # quote_units oid @ 0x22 #
     0x2C # 0x22 # quote_units (js ''exp'') @ 0x22 # 0x3A # 0x22 # quote_units s @ 0x22 # [0x7D])
   = Inr (JObj [(js ''order_id'', JStr oid), (js ''exp'', JStr s)])"
proof (rule JSON_parse_object, rule parse_value_object)
  fix f
  show "parse_members (Suc (Suc (Suc f)))
          (skip_ws (0x22 # quote_units (js ''order_id'') @ 0x22 # 0x3A #
             0x22 # quote_units oid @ 0x22 #
             0x2C # 0x22 # quote_units (js ''exp'') @ 0x22 # 0x3A # 0x22 # quote_units s @
             0x22 # [0x7D]))
        = Some ([(js ''order_id'', JStr oid), (js ''exp'', JStr s)], [])"
    by (rule parse_members_more [OF parse_value_string_ws
          parse_members_last [OF parse_value_string_ws]])
qed

lemma roundToDouble_numeral:
  "numeral k \<le> (2 :: int) ^ 53 \<Longrightarrow> roundToDouble (numeral k) = Finite (numeral k)"
  using roundToDouble_of_int [of "numeral k"] by simp

lemma roundToDouble_1: "roundToDouble 1 = Finite 1"
  using roundToDouble_of_int [of 1] by simp

lemma decimal_int_examples:
  "decimal_int 123 = js ''123''" "decimal_int 9999999999999 = js ''9999999999999''"
  "decimal_int 1 = js ''1''"
  by (simp_all add: js_def decimal_int_def decimal.simps digit_char_def)

lemma well_formed_js: "well_formed (js s)"
proof -
  have "(of_char c :: nat) < 256" for c :: char
    using of_char_mod_256 [of c, where 'a = nat] mod_less_divisor [of 256 "of_char c :: nat"]
    by simp
  then have "unat (of_nat (of_char c) :: code_unit) < 256" for c :: char
    using unat_of_nat_16 [of "of_char c"] less_trans [of "of_char c :: nat" 256 65536] by simp
  then have u: "\<not> 0xD800 \<le> unat (of_nat (of_char c) :: code_unit)" for c :: char
    by (simp add: not_le less_trans [of _ 256 "0xD800"])
  have "\<not> is_high_surrogate (of_nat (of_char c)) \<and> \<not> is_low_surrogate (of_nat (of_char c))"
    for c :: char
    using u [of c] by (simp add: is_high_surrogate_def is_low_surrogate_def word_le_nat_alt)
  then have "\<forall>c \<in> set (js s). \<not> is_high_surrogate c \<and> \<not> is_low_surrogate c"
    unfolding js_def by (induction s) simp_all
  then show ?thesis by (rule well_formed_no_surrogates)
qed

lemma example_texts_well_formed:
  "well_formed numeric_order_id_text" "well_formed (object_order_id_text (js ds))"
  "well_formed string_exp_text"
  unfolding numeric_order_id_text_def object_order_id_text_def string_exp_text_def
  by (intro well_formed_append well_formed_QuoteJSONString well_formed_js)+

lemma example_texts_not_Nil:
  "numeric_order_id_text \<noteq> []" "object_order_id_text ds \<noteq> []" "string_exp_text \<noteq> []"
  by (simp_all add: numeric_order_id_text_def object_order_id_text_def string_exp_text_def js_def)

lemma JSON_parse_numeric_order_id_text:
  "JSON_parse numeric_order_id_text
   = Inr (JObj [(js ''order_id'', JNum (Finite 123)), (js ''exp'', JNum (Finite 9999999999999))])"
proof -
  have "numeric_order_id_text =
     0x7B # 0x22 # quote_units (js ''order_id'') @ 0x22 # 0x3A # decimal_int 123 @
     0x2C # 0x22 # quote_units (js ''exp'') @ 0x22 # 0x3A # decimal_int 9999999999999 @ [0x7D]"
    unfolding decimal_int_examples
    by (simp add: numeric_order_id_text_def QuoteJSONString_def js_def)
  then show ?thesis
    using JSON_parse_numeric_order_id [of 123 9999999999999]
    by (simp add: roundToDouble_numeral)
qed

lemma JSON_parse_object_order_id_text:
  "JSON_parse (object_order_id_text (js ''9999999999999''))
   = Inr (JObj [(js ''order_id'', JObj [(js ''toString'', JNum (Finite 1))]),
                (js ''exp'', JNum (Finite 9999999999999))])"
  "JSON_parse (object_order_id_text (js ''1''))
   = Inr (JObj [(js ''order_id'', JObj [(js ''toString'', JNum (Finite 1))]),
                (js ''exp'', JNum (Finite 1))])"
proof -
  have t: "object_order_id_text (decimal_int n) =
     0x7B # 0x22 # quote_units (js ''order_id'') @ 0x22 # 0x3A #
     0x7B # 0x22 # quote_units (js ''toString'') @ 0x22 # 0x3A # decimal_int 1 @ 0x7D #
     0x2C # 0x22 # quote_units (js ''exp'') @ 0x22 # 0x3A # decimal_int n @ [0x7D]" for n
    unfolding decimal_int_examples(3)
    by (simp add: object_order_id_text_def QuoteJSONString_def js_def)
  show "JSON_parse (object_order_id_text (js ''9999999999999''))
   = Inr (JObj [(js ''order_id'', JObj [(js ''toString'', JNum (Finite 1))]),
                (js ''exp'', JNum (Finite 9999999999999))])"
    using JSON_parse_object_order_id [of 9999999999999] t [of 9999999999999]
    unfolding decimal_int_examples(2)
    by (simp add: roundToDouble_numeral roundToDouble_1)
  show "JSON_parse (object_order_id_text (js ''1''))
   = Inr (JObj [(js ''order_id'', JObj [(js ''toString'', JNum (Finite 1))]),
                (js ''exp'', JNum (Finite 1))])"
    using JSON_parse_object_order_id [of 1] t [of 1]
    unfolding decimal_int_examples(3)
    by (simp add: roundToDouble_1)
qed

lemma JSON_parse_string_exp_text:
  "JSON_parse string_exp_text
   = Inr (JObj [(js ''order_id'', JStr (js ''FF-1'')), (js ''exp'', JStr (js ''9999999999999''))])"
proof -
  have "string_exp_text =
     0x7B # 0x22 # quote_units (js ''order_id'') @ 0x22 # 0x3A #
     0x22 # quote_units (js ''FF-1'') @ 0x22 #
     0x2C # 0x22 # quote_units (js ''exp'') @ 0x22 # 0x3A #
     0x22 # quote_units (js ''9999999999999'') @ 0x22 # [0x7D]"
    by (simp add: string_exp_text_def QuoteJSONString_def js_def)
  then show ?thesis
    using JSON_parse_string_exp [of "js ''FF-1''" "js ''9999999999999''"] by simp
qed

lemma StringToNumber_example: "StringToNumber (js ''9999999999999'') = Finite 9999999999999"
  by (simp add: StringToNumber_def trim_def isWhiteSpace_def js_def radix_of_prefix_def
      is_digit_def exponent_part_def digits_value_def pow10_def Let_def
      roundToDouble_numeral)

lemma NumberToString_123: "NumberToString (Finite 123) = js ''123''"
  using NumberToString_int [of 123] by (simp add: decimal_int_examples)

section \<open>The claims on review tokens\<close>

text \<open>
  Claim C1.  Round trip: with a non-empty secret configured, a token issued by
  \<open>createReviewToken\<close> for any order id and email at a clock value \<open>now\<close> (a time value
  of the platform, at most 8.64e15 in absolute value) is accepted by \<open>verifyReviewToken\<close> for
  the same order id at every clock value up to the expiry, 45 days after \<open>now\<close>; in
  particular immediately after issuance.
\<close>

theorem createReviewToken_round_trip:
  assumes "truthy (REVIEW_LINK_SECRET env)" and "\<bar>now\<bar> \<le> 8640000000000000"
    and "now' \<le> now + 45 * 24 * 60 * 60 * 1000"
  shows "\<exists>token. createReviewToken toLowerCase env order_id email now = Inr token
           \<and> verifyReviewToken env token order_id now' = Inr True"
proof -
  have n: "\<bar>now + 3888000000\<bar> \<le> (2 :: int) ^ 53" using assms(2) by (rule clock_range)
  have "verifyReviewToken env
          (base64url (JSON_stringify_payload order_id (toLowerCase email)
             (Finite (of_int (now + 3888000000)))) @ 0x2E #
           hmacHex (the (REVIEW_LINK_SECRET env))
             (base64url (JSON_stringify_payload order_id (toLowerCase email)
                (Finite (of_int (now + 3888000000))))) @ [])
          order_id now' = Inr (order_id = order_id \<and> now' \<le> now + 3888000000)"
    by (rule verifyReviewToken_signed [OF assms(1) n]) simp
  then show ?thesis
    using createReviewToken_issued [OF assms(1) n, of toLowerCase order_id email] assms(3)
    by simp
qed

theorem createReviewToken_round_trip_witness:
  "\<exists>token. createReviewToken (\<lambda>s. s)
       \<lparr>STRIPE_WEBHOOK_SECRET = None, REVIEW_LINK_SECRET = Some (js ''s3cr3t'')\<rparr>
       (js ''FF-2026-100001'') (js ''user@example.com'') 1700000000000 = Inr token
     \<and> verifyReviewToken \<lparr>STRIPE_WEBHOOK_SECRET = None, REVIEW_LINK_SECRET = Some (js ''s3cr3t'')\<rparr>
           token (js ''FF-2026-100001'') 1700000000000 = Inr True"
  using createReviewToken_round_trip [of
      "\<lparr>STRIPE_WEBHOOK_SECRET = None, REVIEW_LINK_SECRET = Some (js ''s3cr3t'')\<rparr>"
      1700000000000 1700000000000 "\<lambda>s. s" "js ''FF-2026-100001''" "js ''user@example.com''"]
  by (simp add: truthy_def js_def)

text \<open>
  Claim C4.  The order id of the payload is not compared as it stands:
  \<^verbatim>\<open>String(payload.order_id || "")\<close> is.  The token with the payload text
  \<^verbatim>\<open>{"order_id":123,"exp":9999999999999}\<close> and a valid signature, whose \<open>order_id\<close> is
  the number 123 and no string, is accepted for the expected order id \<^verbatim>\<open>123\<close>; and on the
  validly signed payload \<^verbatim>\<open>{"order_id":{"toString":1},"exp":9999999999999}\<close> the verifier
  returns nothing: it throws a \<open>TypeError\<close>.
\<close>

theorem verifyReviewToken_order_id_coerced:
  "token_payload (signed_token (js ''s3cr3t'') numeric_order_id_text)
     = Inr (JObj [(js ''order_id'', JNum (Finite 123)), (js ''exp'', JNum (Finite 9999999999999))])
   \<and> signature_half (signed_token (js ''s3cr3t'') numeric_order_id_text)
     = hmacHex (js ''s3cr3t'') (payload_half (signed_token (js ''s3cr3t'') numeric_order_id_text))
   \<and> verifyReviewToken \<lparr>STRIPE_WEBHOOK_SECRET = None, REVIEW_LINK_SECRET = Some (js ''s3cr3t'')\<rparr>
         (signed_token (js ''s3cr3t'') numeric_order_id_text) (js ''123'') 1700000000000 = Inr True
   \<and> token_payload (signed_token (js ''s3cr3t'') (object_order_id_text (js ''9999999999999'')))
     = Inr (JObj [(js ''order_id'', JObj [(js ''toString'', JNum (Finite 1))]),
                  (js ''exp'', JNum (Finite 9999999999999))])
   \<and> verifyReviewToken \<lparr>STRIPE_WEBHOOK_SECRET = None, REVIEW_LINK_SECRET = Some (js ''s3cr3t'')\<rparr>
         (signed_token (js ''s3cr3t'') (object_order_id_text (js ''9999999999999'')))
         (js ''FF-1'') 1700000000000 = Inl TypeError"
proof -
  let ?env = "\<lparr>STRIPE_WEBHOOK_SECRET = None, REVIEW_LINK_SECRET = Some (js ''s3cr3t'')\<rparr>"
  have s: "REVIEW_LINK_SECRET ?env = Some (js ''s3cr3t'')" "js ''s3cr3t'' \<noteq> []"
    by (simp_all add: js_def)
  have 1: "token_payload (signed_token (js ''s3cr3t'') numeric_order_id_text)
     = Inr (JObj [(js ''order_id'', JNum (Finite 123)), (js ''exp'', JNum (Finite 9999999999999))])"
    using signed_token_payload(2) [OF example_texts_well_formed(1) example_texts_not_Nil(1)]
    by (simp add: JSON_parse_numeric_order_id_text)
  have 2: "signature_half (signed_token (js ''s3cr3t'') numeric_order_id_text)
     = hmacHex (js ''s3cr3t'') (payload_half (signed_token (js ''s3cr3t'') numeric_order_id_text))"
    by (simp add: signed_token_halves)
  have 3: "verifyReviewToken ?env (signed_token (js ''s3cr3t'') numeric_order_id_text)
             (js ''123'') 1700000000000 = Inr True"
    unfolding verifyReviewToken_signed_token [OF s example_texts_well_formed(1)
        example_texts_not_Nil(1) JSON_parse_numeric_order_id_text]
    by (simp add: Get_def ToBoolean_def or_else_def ToNumber_def isFinite_def now_after_def
        NumberToString_123 js_def)
  have 4: "token_payload (signed_token (js ''s3cr3t'') (object_order_id_text (js ''9999999999999'')))
     = Inr (JObj [(js ''order_id'', JObj [(js ''toString'', JNum (Finite 1))]),
                  (js ''exp'', JNum (Finite 9999999999999))])"
    using signed_token_payload(2) [OF example_texts_well_formed(2) example_texts_not_Nil(2)]
    by (simp add: JSON_parse_object_order_id_text)
  have 5: "verifyReviewToken ?env
             (signed_token (js ''s3cr3t'') (object_order_id_text (js ''9999999999999'')))
             (js ''FF-1'') 1700000000000 = Inl TypeError"
    unfolding verifyReviewToken_signed_token [OF s example_texts_well_formed(2)
        example_texts_not_Nil(2) JSON_parse_object_order_id_text(1)]
    by (simp add: Get_def ToBoolean_def or_else_def js_def)
  from 1 2 3 4 5 show ?thesis by (intro conjI)
qed

text \<open>
  Claim C4, amended.  \<open>verifyReviewToken\<close> returns \<open>True\<close> only if the payload of the
  token was decoded and \<^verbatim>\<open>String(payload.order_id || "")\<close> is the expected order id; when
  that string exists and differs from the expected order id the result is \<open>False\<close>,
  whether or not the signature is valid.  So a payload whose \<open>order_id\<close> is a string, as in
  every issued token, is never accepted for another order id.
\<close>

theorem verifyReviewToken_order_id_check:
  "(verifyReviewToken env token order_id now = Inr True \<longrightarrow>
      (\<exists>payload. token_payload token = Inr payload
         \<and> ToString (or_else (Get payload (js ''order_id'')) (JStr [])) = Inr order_id))
   \<and> (\<forall>payload embedded.
         token_payload token = Inr payload
         \<and> ToString (or_else (Get payload (js ''order_id'')) (JStr [])) = Inr embedded
         \<and> embedded \<noteq> order_id
         \<longrightarrow> verifyReviewToken env token order_id now = Inr False)
   \<and> (\<forall>payload embedded.
         token_payload token = Inr payload
         \<and> Get payload (js ''order_id'') = JStr embedded
         \<and> embedded \<noteq> order_id
         \<longrightarrow> verifyReviewToken env token order_id now = Inr False)"
proof (intro conjI allI impI)
  assume t: "verifyReviewToken env token order_id now = Inr True"
  then obtain payload where p: "token_payload token = Inr payload"
    unfolding verifyReviewToken_unfold by (auto split: if_splits sum.splits)
  from t have "ToString (or_else (Get payload (js ''order_id'')) (JStr [])) = Inr order_id"
    unfolding verifyReviewToken_unfold p by (auto split: if_splits sum.splits)
  with p show "\<exists>payload. token_payload token = Inr payload
         \<and> ToString (or_else (Get payload (js ''order_id'')) (JStr [])) = Inr order_id"
    by blast
next
  fix payload embedded
  assume a: "token_payload token = Inr payload
         \<and> ToString (or_else (Get payload (js ''order_id'')) (JStr [])) = Inr embedded
         \<and> embedded \<noteq> order_id"
  then have p: "token_payload token = Inr payload"
    and o: "ToString (or_else (Get payload (js ''order_id'')) (JStr [])) = Inr embedded"
    and d: "embedded \<noteq> order_id"
    by simp_all
  show "verifyReviewToken env token order_id now = Inr False"
    unfolding verifyReviewToken_unfold p using d by (simp add: o)
next
  fix payload embedded
  assume a: "token_payload token = Inr payload
         \<and> Get payload (js ''order_id'') = JStr embedded
         \<and> embedded \<noteq> order_id"
  then have p: "token_payload token = Inr payload" and d: "embedded \<noteq> order_id" by simp_all
  from a have o: "ToString (or_else (Get payload (js ''order_id'')) (JStr [])) = Inr embedded"
    by (simp add: or_else_def ToBoolean_def)
  show "verifyReviewToken env token order_id now = Inr False"
    unfolding verifyReviewToken_unfold p using d by (simp add: o)
qed

theorem verifyReviewToken_order_id_check_witness:
  "\<exists>token. createReviewToken ascii_lower
       \<lparr>STRIPE_WEBHOOK_SECRET = None, REVIEW_LINK_SECRET = Some (js ''s3cr3t'')\<rparr>
       (js ''FF-2026-100001'') (js ''user@example.com'') 1700000000000 = Inr token
     \<and> verifyReviewToken \<lparr>STRIPE_WEBHOOK_SECRET = None, REVIEW_LINK_SECRET = Some (js ''s3cr3t'')\<rparr>
           token (js ''FF-2026-999999'') 1700000000000 = Inr False"
proof -
  let ?env = "\<lparr>STRIPE_WEBHOOK_SECRET = None, REVIEW_LINK_SECRET = Some (js ''s3cr3t'')\<rparr>"
  have s: "truthy (REVIEW_LINK_SECRET ?env)" by (simp add: truthy_def js_def)
  have n: "\<bar>1700000000000 + 3888000000\<bar> \<le> (2 :: int) ^ 53" by simp
  have d: "js ''FF-2026-100001'' \<noteq> js ''FF-2026-999999''" by (simp add: js_def)
  show ?thesis
    using createReviewToken_issued [OF s n, of ascii_lower "js ''FF-2026-100001''"
        "js ''user@example.com''"]
      verifyReviewToken_order_id_check [THEN conjunct2, THEN conjunct2, rule_format,
        OF conjI [OF token_payload_signed [OF n] conjI [OF Get_payload_object(1) d]]]
    by simp
qed

text \<open>
  Claim C5.  The \<open>exp\<close> of the payload is not required to be a number:
  \<^verbatim>\<open>Number(payload.exp || 0)\<close> is.  The token with the payload text
  \<^verbatim>\<open>{"order_id":"FF-1","exp":"9999999999999"}\<close> and a valid signature, whose \<open>exp\<close> is a
  string, is accepted.  And a past \<open>exp\<close> does not always give \<open>False\<close>: on the validly
  signed payload \<^verbatim>\<open>{"order_id":{"toString":1},"exp":1}\<close> the verifier throws a
  \<open>TypeError\<close>, at the order id, before it reads \<open>exp\<close>.
\<close>

theorem verifyReviewToken_exp_coerced:
  "token_payload (signed_token (js ''s3cr3t'') string_exp_text)
     = Inr (JObj [(js ''order_id'', JStr (js ''FF-1'')), (js ''exp'', JStr (js ''9999999999999''))])
   \<and> verifyReviewToken \<lparr>STRIPE_WEBHOOK_SECRET = None, REVIEW_LINK_SECRET = Some (js ''s3cr3t'')\<rparr>
         (signed_token (js ''s3cr3t'') string_exp_text) (js ''FF-1'') 1700000000000 = Inr True
   \<and> token_payload (signed_token (js ''s3cr3t'') (object_order_id_text (js ''1'')))
     = Inr (JObj [(js ''order_id'', JObj [(js ''toString'', JNum (Finite 1))]),
                  (js ''exp'', JNum (Finite 1))])
   \<and> verifyReviewToken \<lparr>STRIPE_WEBHOOK_SECRET = None, REVIEW_LINK_SECRET = Some (js ''s3cr3t'')\<rparr>
         (signed_token (js ''s3cr3t'') (object_order_id_text (js ''1'')))
         (js ''FF-1'') 1700000000000 = Inl TypeError"
proof -
  let ?env = "\<lparr>STRIPE_WEBHOOK_SECRET = None, REVIEW_LINK_SECRET = Some (js ''s3cr3t'')\<rparr>"
  have s: "REVIEW_LINK_SECRET ?env = Some (js ''s3cr3t'')" "js ''s3cr3t'' \<noteq> []"
    by (simp_all add: js_def)
  have ne: "js ''FF-1'' \<noteq> []" "js ''9999999999999'' \<noteq> []" by (simp_all add: js_def)
  have k: "js ''order_id'' \<noteq> js ''exp''" by (simp add: js_def)
  have 1: "token_payload (signed_token (js ''s3cr3t'') string_exp_text)
     = Inr (JObj [(js ''order_id'', JStr (js ''FF-1'')), (js ''exp'', JStr (js ''9999999999999''))])"
    using signed_token_payload(2) [OF example_texts_well_formed(3) example_texts_not_Nil(3)]
    by (simp add: JSON_parse_string_exp_text)
  have 2: "verifyReviewToken ?env (signed_token (js ''s3cr3t'') string_exp_text)
             (js ''FF-1'') 1700000000000 = Inr True"
    unfolding verifyReviewToken_signed_token [OF s example_texts_well_formed(3)
        example_texts_not_Nil(3) JSON_parse_string_exp_text]
    using k
    by (simp add: Get_def ToBoolean_def or_else_def ToNumber_def isFinite_def now_after_def
        StringToNumber_example ne)
  have 3: "token_payload (signed_token (js ''s3cr3t'') (object_order_id_text (js ''1'')))
     = Inr (JObj [(js ''order_id'', JObj [(js ''toString'', JNum (Finite 1))]),
                  (js ''exp'', JNum (Finite 1))])"
    using signed_token_payload(2) [OF example_texts_well_formed(2) example_texts_not_Nil(2)]
    by (simp add: JSON_parse_object_order_id_text)
  have 4: "verifyReviewToken ?env (signed_token (js ''s3cr3t'') (object_order_id_text (js ''1'')))
             (js ''FF-1'') 1700000000000 = Inl TypeError"
    unfolding verifyReviewToken_signed_token [OF s example_texts_well_formed(2)
        example_texts_not_Nil(2) JSON_parse_object_order_id_text(2)]
    by (simp add: Get_def ToBoolean_def or_else_def js_def)
  from 1 2 3 4 show ?thesis by (intro conjI)
qed

text \<open>
  Claim C5, amended.  \<open>verifyReviewToken\<close> returns \<open>True\<close> only if the payload of the
  token was decoded and \<^verbatim>\<open>Number(payload.exp || 0)\<close> is a finite number that the clock has
  not passed.  When \<^verbatim>\<open>String(payload.order_id || "")\<close> exists and
  \<^verbatim>\<open>Number(payload.exp || 0)\<close> is not finite or is below the clock, the result is
  \<open>False\<close>, whether or not the signature is valid; so it is for a payload with a string
  \<open>order_id\<close> and a finite number \<open>exp\<close> below the clock.
\<close>

theorem verifyReviewToken_expiry_check:
  "(verifyReviewToken env token order_id now = Inr True \<longrightarrow>
      (\<exists>payload x. token_payload token = Inr payload
         \<and> ToNumber (or_else (Get payload (js ''exp'')) (JNum (Finite 0))) = Inr (Finite x)
         \<and> of_int now \<le> x))
   \<and> (\<forall>payload embedded e.
         token_payload token = Inr payload
         \<and> ToString (or_else (Get payload (js ''order_id'')) (JStr [])) = Inr embedded
         \<and> ToNumber (or_else (Get payload (js ''exp'')) (JNum (Finite 0))) = Inr e
         \<and> (\<not> isFinite e \<or> now_after now e)
         \<longrightarrow> verifyReviewToken env token order_id now = Inr False)
   \<and> (\<forall>payload embedded x.
         token_payload token = Inr payload
         \<and> Get payload (js ''order_id'') = JStr embedded
         \<and> Get payload (js ''exp'') = JNum (Finite x)
         \<and> x < of_int now
         \<longrightarrow> verifyReviewToken env token order_id now = Inr False)"
proof (intro conjI allI impI)
  assume t: "verifyReviewToken env token order_id now = Inr True"
  then obtain payload where p: "token_payload token = Inr payload"
    unfolding verifyReviewToken_unfold by (auto split: if_splits sum.splits)
  from t obtain embedded where
    "ToString (or_else (Get payload (js ''order_id'')) (JStr [])) = Inr embedded"
    unfolding verifyReviewToken_unfold p by (auto split: if_splits sum.splits)
  with t obtain e where e: "ToNumber (or_else (Get payload (js ''exp'')) (JNum (Finite 0))) = Inr e"
    and f: "isFinite e" "\<not> now_after now e"
    unfolding verifyReviewToken_unfold p by (auto split: if_splits sum.splits)
  from f obtain x where "e = Finite x" "of_int now \<le> x"
    by (cases e) (auto simp: isFinite_def now_after_def)
  with p e show "\<exists>payload x. token_payload token = Inr payload
         \<and> ToNumber (or_else (Get payload (js ''exp'')) (JNum (Finite 0))) = Inr (Finite x)
         \<and> of_int now \<le> x"
    by blast
next
  fix payload embedded e
  assume a: "token_payload token = Inr payload
         \<and> ToString (or_else (Get payload (js ''order_id'')) (JStr [])) = Inr embedded
         \<and> ToNumber (or_else (Get payload (js ''exp'')) (JNum (Finite 0))) = Inr e
         \<and> (\<not> isFinite e \<or> now_after now e)"
  then have p: "token_payload token = Inr payload"
    and o: "ToString (or_else (Get payload (js ''order_id'')) (JStr [])) = Inr embedded"
    and e: "ToNumber (or_else (Get payload (js ''exp'')) (JNum (Finite 0))) = Inr e"
    and x: "\<not> isFinite e \<or> now_after now e"
    by simp_all
  show "verifyReviewToken env token order_id now = Inr False"
    unfolding verifyReviewToken_unfold p using x by (auto simp: o e)
next
  fix payload embedded x
  assume a: "token_payload token = Inr payload
         \<and> Get payload (js ''order_id'') = JStr embedded
         \<and> Get payload (js ''exp'') = JNum (Finite x)
         \<and> x < of_int now"
  then have o: "ToString (or_else (Get payload (js ''order_id'')) (JStr [])) = Inr embedded"
    by (simp add: or_else_def ToBoolean_def)
  from a have "ToNumber (or_else (Get payload (js ''exp'')) (JNum (Finite 0)))
               = Inr (Finite (if x = 0 then 0 else x))"
    by (simp add: or_else_def ToBoolean_def ToNumber_def)
  then have e: "ToNumber (or_else (Get payload (js ''exp'')) (JNum (Finite 0))) = Inr (Finite x)"
    by simp
  from a have p: "token_payload token = Inr payload" by simp
  from a have "now_after now (Finite x)" by (simp add: now_after_def)
  then show "verifyReviewToken env token order_id now = Inr False"
    unfolding verifyReviewToken_unfold p by (simp add: o e)
qed

theorem verifyReviewToken_expiry_check_witness:
  "\<exists>token. createReviewToken ascii_lower
       \<lparr>STRIPE_WEBHOOK_SECRET = None, REVIEW_LINK_SECRET = Some (js ''s3cr3t'')\<rparr>
       (js ''FF-2026-100001'') (js ''user@example.com'') 1700000000000 = Inr token
     \<and> verifyReviewToken \<lparr>STRIPE_WEBHOOK_SECRET = None, REVIEW_LINK_SECRET = Some (js ''s3cr3t'')\<rparr>
           token (js ''FF-2026-100001'') 1703888000001 = Inr False"
proof -
  let ?env = "\<lparr>STRIPE_WEBHOOK_SECRET = None, REVIEW_LINK_SECRET = Some (js ''s3cr3t'')\<rparr>"
  have s: "truthy (REVIEW_LINK_SECRET ?env)" by (simp add: truthy_def js_def)
  have n: "\<bar>1700000000000 + 3888000000\<bar> \<le> (2 :: int) ^ 53" by simp
  have x: "(of_int (1700000000000 + 3888000000) :: rat) < of_int 1703888000001" by simp
  show ?thesis
    using createReviewToken_issued [OF s n, of ascii_lower "js ''FF-2026-100001''"
        "js ''user@example.com''"]
      verifyReviewToken_expiry_check [THEN conjunct2, THEN conjunct2, rule_format,
        OF conjI [OF token_payload_signed [OF n] conjI [OF Get_payload_object(1)
          conjI [OF Get_payload_object(2) x]]]]
    by simp
qed

text \<open>
  Claim C7.  Malformed tokens: a token that lacks the two-part structure (no dot, or an
  empty payload half or signature half), or whose payload half fails base64url decoding or
  JSON parsing, makes \<open>verifyReviewToken\<close> return \<open>False\<close>; no exception is thrown.  The
  token \<^verbatim>\<open>not-a-valid-token\<close> is such a token.
\<close>

theorem verifyReviewToken_malformed:
  assumes "\<not> two_part token \<or> (\<exists>e. token_payload token = Inl e)"
  shows "verifyReviewToken env token order_id now = Inr False"
  using assms unfolding verifyReviewToken_unfold by auto

theorem verifyReviewToken_malformed_witness:
  "\<not> two_part (js ''not-a-valid-token'')
   \<and> verifyReviewToken \<lparr>STRIPE_WEBHOOK_SECRET = None, REVIEW_LINK_SECRET = Some (js ''s3cr3t'')\<rparr>
         (js ''not-a-valid-token'') (js ''FF-1'') 1700000000000 = Inr False
   \<and> token_payload (js ''!.00'') = Inl InvalidCharacterError
   \<and> verifyReviewToken \<lparr>STRIPE_WEBHOOK_SECRET = None, REVIEW_LINK_SECRET = Some (js ''s3cr3t'')\<rparr>
         (js ''!.00'') (js ''FF-1'') 1700000000000 = Inr False"
proof -
  have a: "\<not> two_part (js ''not-a-valid-token'')" by (simp add: two_part_def js_def)
  have b: "token_payload (js ''!.00'') = Inl InvalidCharacterError"
    by (simp add: token_payload_def payload_half_def base64urlDecode_def replace_all_def
        atob_def strip_padding_def is_ascii_whitespace_def b64index_def js_def)
  show ?thesis
    using verifyReviewToken_malformed [of "js ''not-a-valid-token''"] 
      verifyReviewToken_malformed [of "js ''!.00''"] a b
    by simp
qed

text \<open>
  Claim C8.  The token is not cut at its first dot only: \<^verbatim>\<open>split(".")\<close> cuts at every
  dot, and the verifier reads the first two segments.  A token issued by
  \<open>createReviewToken\<close> is still accepted after \<^verbatim>\<open>.extra\<close> is appended to it.
\<close>

theorem verifyReviewToken_extra_segment_accepted:
  "\<exists>token. createReviewToken (\<lambda>s. s)
       \<lparr>STRIPE_WEBHOOK_SECRET = None, REVIEW_LINK_SECRET = Some (js ''s3cr3t'')\<rparr>
       (js ''FF-2026-100001'') (js ''user@example.com'') 1700000000000 = Inr token
     \<and> verifyReviewToken \<lparr>STRIPE_WEBHOOK_SECRET = None, REVIEW_LINK_SECRET = Some (js ''s3cr3t'')\<rparr>
           (token @ js ''.extra'') (js ''FF-2026-100001'') 1700000000000 = Inr True
     \<and> drop 1 (dropWhile (\<lambda>c. c \<noteq> 0x2E) (token @ js ''.extra''))
           \<noteq> hmacHex (js ''s3cr3t'') (takeWhile (\<lambda>c. c \<noteq> 0x2E) (token @ js ''.extra''))"
proof -
  let ?env = "\<lparr>STRIPE_WEBHOOK_SECRET = None, REVIEW_LINK_SECRET = Some (js ''s3cr3t'')\<rparr>"
  let ?B = "base64url (JSON_stringify_payload (js ''FF-2026-100001'') (js ''user@example.com'')
              (Finite (of_int (1700000000000 + 3888000000))))"
  let ?H = "hmacHex (the (REVIEW_LINK_SECRET ?env)) ?B"
  have s: "truthy (REVIEW_LINK_SECRET ?env)" by (simp add: truthy_def js_def)
  have n: "\<bar>1700000000000 + 3888000000\<bar> \<le> (2 :: int) ^ 53" by simp
  have c: "createReviewToken (\<lambda>s. s) ?env (js ''FF-2026-100001'') (js ''user@example.com'')
             1700000000000 = Inr (?B @ 0x2E # ?H)"
    by (rule createReviewToken_issued [OF s n])
  have v: "verifyReviewToken ?env (?B @ 0x2E # ?H @ js ''.extra'') (js ''FF-2026-100001'')
             1700000000000
           = Inr (js ''FF-2026-100001'' = js ''FF-2026-100001''
                  \<and> (1700000000000 :: int) \<le> 1700000000000 + 3888000000)"
    by (rule verifyReviewToken_signed [OF s n]) (simp add: js_def)
  have "dropWhile (\<lambda>c. c \<noteq> 0x2E) (?B @ 0x2E # ?H @ js ''.extra'') = 0x2E # ?H @ js ''.extra''"
    by (rule dropWhile_first_dot) (rule base64url_no_dot)
  moreover have "length (?H @ js ''.extra'') \<noteq> length (hmacHex (js ''s3cr3t'') x)" for x
    by (simp add: length_hmacHex js_def)
  ultimately have d: "drop 1 (dropWhile (\<lambda>c. c \<noteq> 0x2E) (?B @ 0x2E # ?H @ js ''.extra''))
           \<noteq> hmacHex (js ''s3cr3t'') x" for x
    by (metis drop0 drop_Suc_Cons One_nat_def)
  show ?thesis
    using c v d by (intro exI [of _ "?B @ 0x2E # ?H"]) simp
qed

text \<open>
  Claim C8, amended.  \<open>verifyReviewToken\<close> reads the text before the first dot as the
  payload half and the text between the first and the second dot as the signature half;
  what follows a second dot is ignored.  So appending a dot and any text to a token that has
  a dot leaves the answer unchanged.
\<close>

theorem verifyReviewToken_ignores_further_segments:
  assumes "0x2E \<in> set token"
  shows "verifyReviewToken env (token @ 0x2E # extra) order_id now
         = verifyReviewToken env token order_id now"
  unfolding verifyReviewToken_unfold two_part_def token_payload_def
    payload_half_extra [OF assms] signature_half_extra [OF assms]
  using assms by simp

theorem verifyReviewToken_ignores_further_segments_witness:
  "0x2E \<in> set (js ''e30.00'')
   \<and> verifyReviewToken \<lparr>STRIPE_WEBHOOK_SECRET = None, REVIEW_LINK_SECRET = Some (js ''s3cr3t'')\<rparr>
         (js ''e30.00'' @ 0x2E # js ''extra'') (js ''FF-1'') 1700000000000
       = verifyReviewToken \<lparr>STRIPE_WEBHOOK_SECRET = None, REVIEW_LINK_SECRET = Some (js ''s3cr3t'')\<rparr>
         (js ''e30.00'') (js ''FF-1'') 1700000000000"
  using verifyReviewToken_ignores_further_segments [of "js ''e30.00''"]
  by (simp add: js_def)



text \<open>
  Claim C10.  A missing secret (absent or empty): \<open>verifyReviewToken\<close> returns \<open>False\<close>
  for every token and order id and throws nothing, while \<open>createReviewToken\<close> throws
  \<^verbatim>\<open>Missing REVIEW_LINK_SECRET\<close> and \<open>verifyStripeWebhookRaw\<close> throws
  \<^verbatim>\<open>Missing STRIPE_WEBHOOK_SECRET\<close>.
\<close>

theorem missing_secret_outcomes:
  "(\<not> truthy (REVIEW_LINK_SECRET env) \<longrightarrow>
      verifyReviewToken env token order_id now = Inr False
      \<and> createReviewToken toLowerCase env order_id email now
          = Inl (Error ''Missing REVIEW_LINK_SECRET''))
   \<and> (\<not> truthy (STRIPE_WEBHOOK_SECRET env) \<longrightarrow>
      verifyStripeWebhookRaw env sigHeader rawText = Inl (Error ''Missing STRIPE_WEBHOOK_SECRET''))"
  by (simp add: verifyReviewToken_def createReviewToken_def verifyStripeWebhookRaw_def)

theorem missing_secret_outcomes_witness:
  "verifyReviewToken \<lparr>STRIPE_WEBHOOK_SECRET = None, REVIEW_LINK_SECRET = Some []\<rparr>
     (js ''e30.00'') (js ''FF-1'') 1700000000000 = Inr False
   \<and> createReviewToken ascii_lower \<lparr>STRIPE_WEBHOOK_SECRET = None, REVIEW_LINK_SECRET = Some []\<rparr>
       (js ''FF-1'') (js ''user@example.com'') 1700000000000
     = Inl (Error ''Missing REVIEW_LINK_SECRET'')
   \<and> verifyStripeWebhookRaw \<lparr>STRIPE_WEBHOOK_SECRET = None, REVIEW_LINK_SECRET = Some []\<rparr>
       (js ''t=1700000000,v1=abc123'') (js ''{}'') = Inl (Error ''Missing STRIPE_WEBHOOK_SECRET'')"
  using missing_secret_outcomes [of "\<lparr>STRIPE_WEBHOOK_SECRET = None, REVIEW_LINK_SECRET = Some []\<rparr>"
      "js ''e30.00''" "js ''FF-1''" 1700000000000 ascii_lower "js ''user@example.com''"
      "js ''t=1700000000,v1=abc123''" "js ''{}''"]
  by (simp add: truthy_def)


end
